theory Spec2Isabelle
  imports Complex_Main "HOL-Library.Word" "HOL-Library.Multiset" "HOL-Library.Log_Nat"
begin

unbundle bit_operations_syntax

section \<open>Single-precision floats\<close>

text \<open>
  A C \<open>float\<close> is an IEEE 754 binary32 value: a NaN, an infinity or a finite number. The
  finite number \<open>m * 2 ^ e\<close> is \<open>Finite m e\<close>; the two zeros are not told apart, since the
  code only compares and multiplies floats and both zeros behave alike there. An operation
  computes the exact result and rounds it once, to nearest with ties to even, to 24
  significant bits with no exponent below \<open>- 149\<close> (the subnormal range) and with overflow
  to an infinity from \<open>2 ^ 128\<close> on; an expression is evaluated in the precision of its type.
  \<open>rne_shift m d\<close> is \<open>m / 2 ^ d\<close> rounded to the nearest integer, ties to even; \<open>round32 m e\<close> is
  the float nearest to \<open>m * 2 ^ e\<close>. \<open>flt\<close>, \<open>fle\<close>, \<open>fgt\<close> and \<open>fge\<close> are the C comparisons
  \<open><\<close>, \<open><=\<close>, \<open>>\<close> and \<open>>=\<close> (false whenever an operand is a NaN), \<open>fmul\<close> is \<open>*\<close>,
  \<open>float_of_u32\<close> converts a \<open>uint32_t\<close> operand and \<open>float_of_int\<close> an \<open>int\<close> literal.
\<close>

datatype float32 = Finite int int | PInf | MInf | NaN

definition rne_shift :: "int \<Rightarrow> nat \<Rightarrow> int" where
  "rne_shift m d =
     (let q = m div 2 ^ d; r = m mod 2 ^ d
      in if 2 * r < 2 ^ d then q
         else if 2 ^ d < 2 * r then q + 1
         else if even q then q else q + 1)"

definition round32 :: "int \<Rightarrow> int \<Rightarrow> float32" where
  "round32 m e =
     (let d = nat (max (bitlen \<bar>m\<bar> - 24) (- 149 - e));
          q = rne_shift m d
      in if 2 ^ 277 \<le> \<bar>q\<bar> * 2 ^ nat (e + int d + 149)
         then (if 0 < q then PInf else MInf)
         else Finite q (e + int d))"

fun fmul :: "float32 \<Rightarrow> float32 \<Rightarrow> float32" where
  "fmul (Finite m1 e1) (Finite m2 e2) = round32 (m1 * m2) (e1 + e2)"
| "fmul NaN _ = NaN"
| "fmul _ NaN = NaN"
| "fmul (Finite m e) PInf = (if m = 0 then NaN else if 0 < m then PInf else MInf)"
| "fmul (Finite m e) MInf = (if m = 0 then NaN else if 0 < m then MInf else PInf)"
| "fmul PInf (Finite m e) = (if m = 0 then NaN else if 0 < m then PInf else MInf)"
| "fmul MInf (Finite m e) = (if m = 0 then NaN else if 0 < m then MInf else PInf)"
| "fmul PInf PInf = PInf"
| "fmul PInf MInf = MInf"
| "fmul MInf PInf = MInf"
| "fmul MInf MInf = PInf"

fun flt :: "float32 \<Rightarrow> float32 \<Rightarrow> bool" where
  "flt (Finite m1 e1) (Finite m2 e2) \<longleftrightarrow> m1 * 2 ^ nat (e1 - e2) < m2 * 2 ^ nat (e2 - e1)"
| "flt (Finite m e) PInf \<longleftrightarrow> True"
| "flt MInf (Finite m e) \<longleftrightarrow> True"
| "flt MInf PInf \<longleftrightarrow> True"
| "flt _ _ \<longleftrightarrow> False"

fun fle :: "float32 \<Rightarrow> float32 \<Rightarrow> bool" where
  "fle (Finite m1 e1) (Finite m2 e2) \<longleftrightarrow> m1 * 2 ^ nat (e1 - e2) \<le> m2 * 2 ^ nat (e2 - e1)"
| "fle NaN _ \<longleftrightarrow> False"
| "fle _ NaN \<longleftrightarrow> False"
| "fle MInf _ \<longleftrightarrow> True"
| "fle _ PInf \<longleftrightarrow> True"
| "fle _ _ \<longleftrightarrow> False"

definition fgt :: "float32 \<Rightarrow> float32 \<Rightarrow> bool" where
  "fgt a b \<longleftrightarrow> flt b a"

definition fge :: "float32 \<Rightarrow> float32 \<Rightarrow> bool" where
  "fge a b \<longleftrightarrow> fle b a"

definition float_of_u32 :: "32 word \<Rightarrow> float32" where
  "float_of_u32 w = round32 (uint w) 0"

definition float_of_int :: "int \<Rightarrow> float32" where
  "float_of_int i = round32 i 0"

text \<open>
  The value of a finite float, and the comparisons \<open>c * f < n\<close> and \<open>n < c * f\<close> of exact
  arithmetic (over the extended reals) for natural numbers \<open>c\<close>, \<open>n\<close> and a float \<open>f\<close>.
\<close>

definition valof :: "float32 \<Rightarrow> real" where
  "valof f = (case f of Finite m e \<Rightarrow> real_of_int m * 2 powr real_of_int e | _ \<Rightarrow> 0)"

definition prod_lt :: "nat \<Rightarrow> float32 \<Rightarrow> nat \<Rightarrow> bool" where
  "prod_lt c f n =
     (case f of Finite m e \<Rightarrow> real c * valof f < real n | MInf \<Rightarrow> 0 < c | _ \<Rightarrow> False)"

definition lt_prod :: "nat \<Rightarrow> nat \<Rightarrow> float32 \<Rightarrow> bool" where
  "lt_prod n c f =
     (case f of Finite m e \<Rightarrow> real n < real c * valof f | PInf \<Rightarrow> 0 < c | _ \<Rightarrow> False)"

text \<open>The float constants \<open>0.75f\<close>, \<open>0.25f\<close>, \<open>0.9f\<close> and \<open>1.0f\<close>.\<close>

definition f32_0_75 :: float32 where
  "f32_0_75 = Finite 3 (- 2)"

definition f32_0_25 :: float32 where
  "f32_0_25 = Finite 1 (- 2)"

definition f32_0_9 :: float32 where
  "f32_0_9 = Finite 15099494 (- 24)"

definition f32_1 :: float32 where
  "f32_1 = Finite 1 0"

section \<open>Data model of \<open>open_table.c\<close>\<close>

text \<open>
  The embedding follows \<open>src/Open_Table/src/open_table.c\<close>. Unsigned 32-bit fields and
  loop counters are \<open>32 word\<close>. A key pointer is \<open>'k option\<close> (\<open>None\<close> is the NULL pointer,
  \<open>Some k\<close> a pointer to the key data \<open>k\<close>), a value pointer is \<open>'v option\<close>. The two
  \<open>float\<close> load factors are \<open>float32\<close> values. The destructor callbacks \<open>free_key\<close> and \<open>free_val\<close> are modelled by whether
  they are configured; the memory they release is outside the table. A call of
  \<open>malloc\<close>/\<open>calloc\<close> takes its outcome as a boolean argument (\<open>True\<close>: the block was
  obtained). The \<open>HashTab *\<close> argument of every operation is a table, so the NULL-table
  checks have no branch here.
\<close>

datatype HTResult =
    HT_FAILURE
  | HT_SUCCESS
  | HT_KEY_EXISTS
  | HT_NO_SPACE
  | HT_KEY_NOT_FOUND
  | HT_MEM_ERROR
  | HT_INVALID_ARG
  | HT_INVALID_STATE

record ('k, 'v) htentry =
  hash_key :: "32 word"
  psl :: "32 word"
  key :: "'k option"
  val :: "'v option"

record ('k, 'v) hashtab =
  table :: "('k, 'v) htentry list"
  size_w :: "32 word"
  active :: "32 word"
  load_factor :: float32
  min_load_factor :: float32
  hash_func :: "'k \<Rightarrow> nat \<Rightarrow> 32 word"
  cmp_func :: "'k \<Rightarrow> 'k \<Rightarrow> int"
  free_key :: bool
  free_val :: bool

record 'k HTConfig =
  cfg_load_factor :: float32
  cfg_min_load_factor :: float32
  cfg_hash_func :: "('k \<Rightarrow> nat \<Rightarrow> 32 word) option"
  cfg_cmp_func :: "('k \<Rightarrow> 'k \<Rightarrow> int) option"
  cfg_free_key :: bool
  cfg_free_val :: bool

text \<open>A slot as \<open>calloc\<close> leaves it: every field zero.\<close>

definition zero_entry :: "('k, 'v) htentry" where
  "zero_entry = \<lparr>hash_key = 0, psl = 0, key = None, val = None\<rparr>"

definition UINT32_MAX :: "32 word" where
  "UINT32_MAX = 4294967295"

section \<open>Probing and validation\<close>

definition probe_func :: "32 word \<Rightarrow> 32 word \<Rightarrow> 32 word \<Rightarrow> 32 word" where
  "probe_func k i m = (k + i) AND (m - 1)"

definition validate_load_factors :: "float32 \<Rightarrow> float32 \<Rightarrow> HTResult" where
  "validate_load_factors lf mlf =
     (if fle lf (float_of_int 0) \<or> fgt lf (float_of_int 1) then HT_INVALID_ARG
      else if flt mlf (float_of_int 0) \<or> fge mlf lf then HT_INVALID_ARG
      else HT_SUCCESS)"

definition validate_size :: "32 word \<Rightarrow> 32 word \<Rightarrow> HTResult" where
  "validate_size sz new_size =
     (if new_size = 0 \<or> new_size > UINT32_MAX div 2 then HT_FAILURE else HT_SUCCESS)"

section \<open>Creation\<close>

text \<open>
  \<open>ht_create\<close>: the configuration pointer may be NULL (\<open>None\<close>). The default hash and
  comparison functions read the bytes behind the key pointer; they are arguments here
  because the key data is abstract. \<open>alloc_ht\<close> and \<open>alloc_table\<close> are the outcomes of the
  \<open>malloc\<close> of the table header and of the \<open>calloc\<close> of the slot array.
\<close>

definition ht_create ::
  "('k \<Rightarrow> nat \<Rightarrow> 32 word) \<Rightarrow> ('k \<Rightarrow> 'k \<Rightarrow> int) \<Rightarrow> 'k HTConfig option \<Rightarrow> bool \<Rightarrow> bool
     \<Rightarrow> ('k, 'v) hashtab option" where
  "ht_create default_hash_func default_cmp_func config alloc_ht alloc_table =
     (case config of
        None \<Rightarrow> None
      | Some c \<Rightarrow>
          if validate_load_factors (cfg_load_factor c) (cfg_min_load_factor c) \<noteq> HT_SUCCESS
          then None
          else if \<not> alloc_ht then None
          else if \<not> alloc_table then None
          else Some \<lparr>table = replicate 2 zero_entry,
                     size_w = 2,
                     active = 0,
                     load_factor = cfg_load_factor c,
                     min_load_factor = cfg_min_load_factor c,
                     hash_func = (case cfg_hash_func c of Some f \<Rightarrow> f | None \<Rightarrow> default_hash_func),
                     cmp_func = (case cfg_cmp_func c of Some f \<Rightarrow> f | None \<Rightarrow> default_cmp_func),
                     free_key = cfg_free_key c,
                     free_val = cfg_free_val c\<rparr>)"

section \<open>Search\<close>

lemma word_less_unat_Suc: "(i :: 32 word) < s \<Longrightarrow> unat (i + 1) = Suc (unat i)"
proof -
  assume "i < s"
  then have "unat i < unat s" by (simp add: word_less_nat_alt)
  moreover have "unat s < 2 ^ 32" using unsigned_less [of s] by simp
  ultimately have "unat i + unat (1 :: 32 word) < 2 ^ LENGTH(32)" by simp
  then have "unat (i + 1) = unat i + unat (1 :: 32 word)" by (simp only: unat_add_lem)
  then show ?thesis by simp
qed

lemma loop_measure_decreases: "(i :: 32 word) < s \<Longrightarrow> unat s - unat (i + 1) < unat s - unat i"
  by (simp add: word_less_unat_Suc word_less_nat_alt)

text \<open>The \<open>for\<close> loop of \<open>ht_search\<close>, from step \<open>i\<close> on.\<close>

function search_loop :: "('k, 'v) hashtab \<Rightarrow> 32 word \<Rightarrow> 'k \<Rightarrow> 32 word \<Rightarrow> 'v option" where
  "search_loop ht hk k i =
     (if i < size_w ht then
        (let index = probe_func hk i (size_w ht);
             entry = table ht ! unat index
         in if key entry = None then None
            else if hash_key entry = hk \<and> cmp_func ht (the (key entry)) k = 0
                 then val (table ht ! unat index)
            else if psl entry < i then None
            else search_loop ht hk k (i + 1))
      else None)"
  by pat_completeness auto
termination
  by (relation "measure (\<lambda>(ht, hk, k, i). unat (size_w ht) - unat i)")
     (auto simp: loop_measure_decreases)

definition ht_search :: "('k, 'v) hashtab \<Rightarrow> 'k option \<Rightarrow> nat \<Rightarrow> 'v option" where
  "ht_search ht k key_len =
     (case k of
        None \<Rightarrow> None
      | Some kk \<Rightarrow>
          if key_len = 0 then None
          else search_loop ht (hash_func ht kk key_len) kk 0)"

section \<open>Insertion\<close>

text \<open>
  The \<open>while\<close> loop of \<open>insert_entry\<close>: \<open>new_entry\<close> is the carried entry, \<open>i\<close> the step.
  The probe index is always taken from the hash of the entry the call started with.
\<close>

function insert_loop ::
  "('k, 'v) hashtab \<Rightarrow> 32 word \<Rightarrow> ('k, 'v) htentry \<Rightarrow> 32 word \<Rightarrow> HTResult \<times> ('k, 'v) hashtab" where
  "insert_loop ht hk new_entry i =
     (if i < size_w ht then
        (let index = probe_func hk i (size_w ht);
             entry = table ht ! unat index
         in if key entry = None then
              (HT_SUCCESS, ht\<lparr>table := (table ht)[unat index := new_entry],
                               active := active ht + 1\<rparr>)
            else if psl new_entry > psl entry then
              insert_loop (ht\<lparr>table := (table ht)[unat index := new_entry]\<rparr>) hk
                (entry\<lparr>psl := psl entry + 1\<rparr>) (i + 1)
            else
              insert_loop ht hk (new_entry\<lparr>psl := psl new_entry + 1\<rparr>) (i + 1))
      else (HT_FAILURE, ht))"
  by pat_completeness auto
termination
  by (relation "measure (\<lambda>(ht, hk, e, i). unat (size_w ht) - unat i)")
     (auto simp: loop_measure_decreases)

definition insert_entry ::
  "('k, 'v) hashtab \<Rightarrow> 32 word \<Rightarrow> 'k option \<Rightarrow> 'v option \<Rightarrow> HTResult \<times> ('k, 'v) hashtab" where
  "insert_entry ht hk k v =
     insert_loop ht hk \<lparr>hash_key = hk, psl = 0, key = k, val = v\<rparr> 0"

text \<open>The \<open>for\<close> loop of \<open>rehash_entries\<close>; the result of \<open>insert_entry\<close> is dropped.\<close>

function rehash_loop ::
  "('k, 'v) hashtab \<Rightarrow> ('k, 'v) htentry list \<Rightarrow> 32 word \<Rightarrow> 32 word \<Rightarrow> ('k, 'v) hashtab" where
  "rehash_loop ht old_table old_size i =
     (if i < old_size then
        (if key (old_table ! unat i) \<noteq> None then
           rehash_loop
             (snd (insert_entry ht (hash_key (old_table ! unat i)) (key (old_table ! unat i))
                     (val (old_table ! unat i))))
             old_table old_size (i + 1)
         else rehash_loop ht old_table old_size (i + 1))
      else ht)"
  by pat_completeness auto
termination
  by (relation "measure (\<lambda>(ht, t, s, i). unat s - unat i)")
     (auto simp: loop_measure_decreases)

definition rehash_entries ::
  "('k, 'v) hashtab \<Rightarrow> ('k, 'v) htentry list \<Rightarrow> 32 word \<Rightarrow> ('k, 'v) hashtab" where
  "rehash_entries ht old_table old_size = rehash_loop ht old_table old_size 0"

definition resize :: "('k, 'v) hashtab \<Rightarrow> 32 word \<Rightarrow> bool \<Rightarrow> HTResult \<times> ('k, 'v) hashtab" where
  "resize ht new_size alloc =
     (let old_size = size_w ht;
          old_table = table ht;
          result = validate_size (size_w ht) new_size
      in if result \<noteq> HT_SUCCESS then (result, ht)
         else if \<not> alloc then (HT_MEM_ERROR, ht)
         else (HT_SUCCESS,
               rehash_entries
                 (ht\<lparr>table := replicate (unat new_size) zero_entry,
                      size_w := new_size,
                      active := 0\<rparr>)
                 old_table old_size))"

definition ht_insert ::
  "('k, 'v) hashtab \<Rightarrow> 'k option \<Rightarrow> nat \<Rightarrow> 'v option \<Rightarrow> bool \<Rightarrow> HTResult \<times> ('k, 'v) hashtab" where
  "ht_insert ht k key_len v alloc =
     (case k of
        None \<Rightarrow> (HT_INVALID_ARG, ht)
      | Some kk \<Rightarrow>
          if key_len = 0 then (HT_INVALID_ARG, ht)
          else if ht_search ht k key_len \<noteq> None then (HT_KEY_EXISTS, ht)
          else if fgt (float_of_u32 (active ht + 1)) (fmul (float_of_u32 (size_w ht)) (load_factor ht)) then
            (if validate_size (size_w ht) (push_bit 1 (size_w ht)) \<noteq> HT_SUCCESS
             then (validate_size (size_w ht) (push_bit 1 (size_w ht)), ht)
             else (case resize ht (push_bit 1 (size_w ht)) alloc of
                     (result, ht') \<Rightarrow>
                       if result \<noteq> HT_SUCCESS then (result, ht')
                       else insert_entry ht' (hash_func ht' kk key_len) (Some kk) v))
          else insert_entry ht (hash_func ht kk key_len) (Some kk) v)"

section \<open>Removal\<close>

definition free_entry :: "('k, 'v) hashtab \<Rightarrow> ('k, 'v) htentry \<Rightarrow> ('k, 'v) htentry" where
  "free_entry ht entry =
     (let e1 = (if free_key ht then entry\<lparr>key := None\<rparr> else entry)
      in if free_val ht then e1\<lparr>val := None\<rparr> else e1)"

text \<open>
  The \<open>while\<close> loop of \<open>shift_entries_backward\<close>. Nothing in the loop bounds the number of
  its rounds, so the model is a partial function: \<open>None\<close> stands for a loop that does not
  return.
\<close>

partial_function (option) shift_loop ::
  "('k, 'v) hashtab \<Rightarrow> 32 word \<Rightarrow> 32 word \<Rightarrow> 32 word \<Rightarrow> 32 word \<Rightarrow> ('k, 'v) hashtab option" where
  "shift_loop ht current_index hk probe_count next_index =
     (if key (table ht ! unat next_index) \<noteq> None \<and> psl (table ht ! unat next_index) > 0 then
        shift_loop
          (ht\<lparr>table := (table ht)[unat current_index :=
                 (table ht ! unat next_index)\<lparr>psl := psl (table ht ! unat next_index) - 1\<rparr>]\<rparr>)
          next_index hk (probe_count + 1)
          (probe_func hk (probe_count + 1) (size_w ht))
      else
        Some (ht\<lparr>table := (table ht)[unat current_index :=
                (table ht ! unat current_index)\<lparr>key := None\<rparr>]\<rparr>))"

declare shift_loop.simps [code]

definition shift_entries_backward ::
  "('k, 'v) hashtab \<Rightarrow> 32 word \<Rightarrow> 32 word \<Rightarrow> 32 word \<Rightarrow> ('k, 'v) hashtab option" where
  "shift_entries_backward ht current_index hk probe_count =
     shift_loop ht current_index hk (probe_count + 1)
       (probe_func hk (probe_count + 1) (size_w ht))"

definition remove_table_update :: "('k, 'v) hashtab \<Rightarrow> bool \<Rightarrow> ('k, 'v) hashtab" where
  "remove_table_update ht alloc =
     (let ht1 = ht\<lparr>active := active ht - 1\<rparr>
      in if flt (float_of_u32 (active ht1)) (fmul (float_of_u32 (size_w ht1)) (min_load_factor ht1))
            \<and> size_w ht1 > 2
         then snd (resize ht1 (size_w ht1 div 2) alloc)
         else ht1)"

text \<open>The \<open>for\<close> loop of \<open>remove_entry\<close>, from step \<open>probe_count\<close> on.\<close>

function remove_loop ::
  "('k, 'v) hashtab \<Rightarrow> 32 word \<Rightarrow> 'k \<Rightarrow> bool \<Rightarrow> 32 word \<Rightarrow> (HTResult \<times> ('k, 'v) hashtab) option" where
  "remove_loop ht hk k alloc probe_count =
     (if probe_count < size_w ht then
        (let current_index = probe_func hk probe_count (size_w ht);
             current_entry = table ht ! unat current_index
         in if key current_entry = None then Some (HT_KEY_NOT_FOUND, ht)
            else if hash_key current_entry = hk \<and> cmp_func ht (the (key current_entry)) k = 0 then
              (case shift_entries_backward
                      (ht\<lparr>table := (table ht)[unat current_index :=
                             (free_entry ht current_entry)\<lparr>key := None, val := None\<rparr>]\<rparr>)
                      current_index hk probe_count of
                 None \<Rightarrow> None
               | Some ht2 \<Rightarrow> Some (HT_SUCCESS, remove_table_update ht2 alloc))
            else if psl current_entry < probe_count then Some (HT_KEY_NOT_FOUND, ht)
            else remove_loop ht hk k alloc (probe_count + 1))
      else Some (HT_KEY_NOT_FOUND, ht))"
  by pat_completeness auto
termination
  by (relation "measure (\<lambda>(ht, hk, k, a, i). unat (size_w ht) - unat i)")
     (auto simp: loop_measure_decreases)

definition remove_entry ::
  "('k, 'v) hashtab \<Rightarrow> 32 word \<Rightarrow> 'k \<Rightarrow> bool \<Rightarrow> (HTResult \<times> ('k, 'v) hashtab) option" where
  "remove_entry ht hk k alloc = remove_loop ht hk k alloc 0"

definition ht_remove ::
  "('k, 'v) hashtab \<Rightarrow> 'k option \<Rightarrow> nat \<Rightarrow> bool \<Rightarrow> (HTResult \<times> ('k, 'v) hashtab) option" where
  "ht_remove ht k key_len alloc =
     (case k of
        None \<Rightarrow> Some (HT_INVALID_ARG, ht)
      | Some kk \<Rightarrow>
          if key_len = 0 then Some (HT_INVALID_ARG, ht)
          else remove_entry ht (hash_func ht kk key_len) kk alloc)"

definition ht_capacity :: "('k, 'v) hashtab \<Rightarrow> 32 word" where
  "ht_capacity ht = size_w ht"

declare search_loop.simps [simp del]
declare insert_loop.simps [simp del]
declare rehash_loop.simps [simp del]
declare remove_loop.simps [simp del]

section \<open>Well-formed tables\<close>

text \<open>
  A slot is occupied when its key pointer is not NULL. The content of an occupied slot is
  its cached hash, key and value; the multiset of the contents of a slot array is what the
  table holds, with multiplicity.
\<close>

definition occupied :: "('k, 'v) htentry \<Rightarrow> bool" where
  "occupied e \<longleftrightarrow> key e \<noteq> None"

definition entry_content :: "('k, 'v) htentry \<Rightarrow> 32 word \<times> 'k option \<times> 'v option" where
  "entry_content e = (hash_key e, key e, val e)"

definition contents :: "('k, 'v) htentry list \<Rightarrow> (32 word \<times> 'k option \<times> 'v option) multiset" where
  "contents t = image_mset entry_content (filter_mset occupied (mset t))"

text \<open>The slot before \<open>x\<close> in a cyclic array of \<open>n\<close> slots.\<close>

definition pred_slot :: "nat \<Rightarrow> nat \<Rightarrow> nat" where
  "pred_slot n x = (x + n - 1) mod n"

text \<open>
  \<open>slot_ok\<close>: the entry in slot \<open>x\<close> lies \<open>psl\<close> steps after the slot its cached hash
  probes first. \<open>rh_local\<close>: an entry that is displaced has an occupied slot before it,
  whose entry is displaced by at most one step less.
\<close>

definition slot_ok :: "nat \<Rightarrow> nat \<Rightarrow> ('k, 'v) htentry \<Rightarrow> bool" where
  "slot_ok n x e \<longleftrightarrow> unat (psl e) < n \<and> (unat (hash_key e) + unat (psl e)) mod n = x"

definition rh_local :: "('k, 'v) htentry list \<Rightarrow> nat \<Rightarrow> bool" where
  "rh_local t x \<longleftrightarrow>
     (occupied (t ! x) \<and> psl (t ! x) \<noteq> 0 \<longrightarrow>
        occupied (t ! pred_slot (length t) x) \<and>
        unat (psl (t ! x)) \<le> Suc (unat (psl (t ! pred_slot (length t) x))))"

definition slots_ok :: "('k, 'v) htentry list \<Rightarrow> bool" where
  "slots_ok t \<longleftrightarrow>
     (\<forall>x < length t. (occupied (t ! x) \<longrightarrow> slot_ok (length t) x (t ! x)) \<and> rh_local t x)"

text \<open>The capacity is a power of two between \<open>2\<close> and \<open>2 ^ 30\<close>, and the slot array has that length.\<close>

definition sized :: "('k, 'v) hashtab \<Rightarrow> bool" where
  "sized ht \<longleftrightarrow> (\<exists>e \<in> {1..30}. size_w ht = 2 ^ e \<and> length (table ht) = 2 ^ e)"

definition table_ok :: "('k, 'v) hashtab \<Rightarrow> bool" where
  "table_ok ht \<longleftrightarrow> sized ht \<and> slots_ok (table ht)"

definition ht_inv :: "('k, 'v) hashtab \<Rightarrow> bool" where
  "ht_inv ht \<longleftrightarrow> table_ok ht \<and> unat (active ht) = size (contents (table ht))"

text \<open>The fields that no operation after \<open>ht_create\<close> writes.\<close>

definition same_config :: "('k, 'v) hashtab \<Rightarrow> ('k, 'v) hashtab \<Rightarrow> bool" where
  "same_config ht ht' \<longleftrightarrow>
     load_factor ht' = load_factor ht \<and> min_load_factor ht' = min_load_factor ht \<and>
     hash_func ht' = hash_func ht \<and> cmp_func ht' = cmp_func ht \<and>
     free_key ht' = free_key ht \<and> free_val ht' = free_val ht"

text \<open>A slot matches the key \<open>k\<close> with hash \<open>hk\<close> as \<open>ht_search\<close> and \<open>remove_entry\<close> test it.\<close>

definition matches :: "('k, 'v) hashtab \<Rightarrow> 32 word \<Rightarrow> 'k \<Rightarrow> ('k, 'v) htentry \<Rightarrow> bool" where
  "matches ht hk k e \<longleftrightarrow>
     key e \<noteq> None \<and> hash_key e = hk \<and> cmp_func ht (the (key e)) k = 0"

section \<open>Word arithmetic of the probe sequence\<close>

lemma pow2_word_unat:
  assumes "e < 32"
  shows "unat ((2 :: 32 word) ^ e) = 2 ^ e"
proof -
  have "(2 :: 32 word) ^ e = of_nat (2 ^ e)" by simp
  then have "unat ((2 :: 32 word) ^ e) = (2 ^ e) mod 2 ^ LENGTH(32)"
    by (simp only: unat_of_nat)
  moreover have "(2 :: nat) ^ e < 2 ^ LENGTH(32)"
    by (rule power_strict_increasing) (use assms in simp_all)
  ultimately show ?thesis by (simp only: mod_less)
qed

lemma probe_func_unat:
  assumes "e < 32"
  shows "unat (probe_func k i (2 ^ e)) = (unat k + unat i) mod 2 ^ e"
proof -
  have "probe_func k i (2 ^ e) = take_bit e (k + i)"
    by (simp add: probe_func_def take_bit_eq_mask mask_eq_decr_exp)
  then have "unat (probe_func k i (2 ^ e)) = take_bit e (unat (k + i))"
    by (simp only: unsigned_take_bit_eq)
  also have "\<dots> = unat (k + i) mod 2 ^ e"
    by (simp add: take_bit_eq_mod)
  also have "\<dots> = ((unat k + unat i) mod 2 ^ LENGTH(32)) mod 2 ^ e"
    by (simp only: unat_word_ariths)
  also have "\<dots> = (unat k + unat i) mod 2 ^ e"
  proof (rule mod_mod_cancel)
    show "(2 :: nat) ^ e dvd 2 ^ LENGTH(32)"
      by (rule le_imp_power_dvd) (use assms in simp)
  qed
  finally show ?thesis .
qed

lemma contents_update:
  assumes "x < length t"
  shows "contents (t[x := e]) =
           (contents t - (if occupied (t ! x) then {#entry_content (t ! x)#} else {#}))
           + (if occupied e then {#entry_content e#} else {#})"
proof -
  have in_t: "t ! x \<in># mset t" using assms by simp
  have upd: "mset (t[x := e]) = add_mset e (mset t - {#t ! x#})"
    using assms by (rule mset_update)
  have "filter_mset occupied (mset t - {#t ! x#}) =
          filter_mset occupied (mset t) - (if occupied (t ! x) then {#t ! x#} else {#})"
    by (simp add: filter_diff_mset)
  moreover have "occupied (t ! x) \<Longrightarrow> {#t ! x#} \<subseteq># filter_mset occupied (mset t)"
    using in_t by simp
  ultimately have "image_mset entry_content (filter_mset occupied (mset t - {#t ! x#})) =
          contents t - (if occupied (t ! x) then {#entry_content (t ! x)#} else {#})"
    by (simp add: contents_def image_mset_Diff)
  then show ?thesis
    by (simp add: contents_def upd)
qed

lemma contents_size_le: "size (contents t) \<le> length t"
  by (simp add: contents_def) (metis size_filter_mset_lesseq size_mset)

lemma contents_full:
  assumes "\<forall>x < length t. occupied (t ! x)"
  shows "size (contents t) = length t"
proof -
  have "filter_mset occupied (mset t) = mset t"
    using assms by (auto simp: filter_mset_eq_conv in_set_conv_nth)
  then show ?thesis by (simp add: contents_def)
qed

lemma pred_slot_less: "0 < n \<Longrightarrow> pred_slot n x < n"
  by (simp add: pred_slot_def)

lemma pred_slot_succ: "x < n \<Longrightarrow> pred_slot n (Suc x mod n) = x"
  by (cases "Suc x = n") (auto simp: pred_slot_def mod_Suc)

lemma pred_slot_neq: "2 \<le> n \<Longrightarrow> x < n \<Longrightarrow> pred_slot n x \<noteq> x"
  by (cases x) (auto simp: pred_slot_def)

lemma succ_pred_slot: "x < n \<Longrightarrow> Suc (pred_slot n x) mod n = x"
  by (cases x) (auto simp: pred_slot_def)

lemma slots_ok_place:
  assumes ok: "slots_ok t" and n2: "2 \<le> length t" and x: "x < length t"
    and occN: "occupied N" and sN: "slot_ok (length t) x N"
    and pend: "psl N \<noteq> 0 \<Longrightarrow> occupied (t ! pred_slot (length t) x) \<and>
                 unat (psl N) \<le> Suc (unat (psl (t ! pred_slot (length t) x)))"
    and dom: "occupied (t ! x) \<Longrightarrow> unat (psl (t ! x)) \<le> unat (psl N)"
  shows "slots_ok (t[x := N])"
  unfolding slots_ok_def
proof (intro allI impI conjI)
  fix y assume y: "y < length (t[x := N])"
  then have y': "y < length t" by simp
  assume "occupied (t[x := N] ! y)"
  then show "slot_ok (length (t[x := N])) y (t[x := N] ! y)"
    using ok y' x sN by (cases "y = x") (auto simp: slots_ok_def)
next
  fix y assume y: "y < length (t[x := N])"
  then have y': "y < length t" by simp
  have px: "pred_slot (length t) x \<noteq> x" using n2 x by (rule pred_slot_neq)
  show "rh_local (t[x := N]) y"
  proof (cases "y = x")
    case True
    then show ?thesis using pend px x by (auto simp: rh_local_def)
  next
    case False
    have old: "rh_local t y" using ok y' by (simp add: slots_ok_def)
    show ?thesis
    proof (cases "pred_slot (length t) y = x")
      case True
      show ?thesis
        unfolding rh_local_def
      proof (intro impI)
        assume a: "occupied (t[x := N] ! y) \<and> psl (t[x := N] ! y) \<noteq> 0"
        with False have b: "occupied (t ! y) \<and> psl (t ! y) \<noteq> 0" by simp
        with old True have c: "occupied (t ! x)" "unat (psl (t ! y)) \<le> Suc (unat (psl (t ! x)))"
          by (auto simp: rh_local_def)
        with dom have "unat (psl (t ! y)) \<le> Suc (unat (psl N))" by simp
        then show "occupied (t[x := N] ! pred_slot (length (t[x := N])) y) \<and>
            unat (psl (t[x := N] ! y)) \<le> Suc (unat (psl (t[x := N] ! pred_slot (length (t[x := N])) y)))"
          using True False x occN by simp
      qed
    next
      case F2: False
      then show ?thesis using old False by (simp add: rh_local_def)
    qed
  qed
qed

lemma sized_facts:
  assumes "sized ht"
  shows "unat (size_w ht) = length (table ht)"
    and "2 \<le> length (table ht)"
    and "length (table ht) \<le> 2 ^ 30"
    and "unat (probe_func k i (size_w ht)) = (unat k + unat i) mod length (table ht)"
    and "unat (probe_func k i (size_w ht)) < length (table ht)"
proof -
  from assms obtain e where e: "1 \<le> e" "e \<le> 30" "size_w ht = 2 ^ e" "length (table ht) = 2 ^ e"
    by (auto simp: sized_def)
  have e32: "e < 32" using e(2) by simp
  show "unat (size_w ht) = length (table ht)"
    using e pow2_word_unat [OF e32] by simp
  have "(2 :: nat) ^ 1 \<le> 2 ^ e" by (rule power_increasing) (use e in simp_all)
  then show n2: "2 \<le> length (table ht)" using e by simp
  have "(2 :: nat) ^ e \<le> 2 ^ 30" by (rule power_increasing) (use e in simp_all)
  then show "length (table ht) \<le> 2 ^ 30" using e by simp
  show p: "unat (probe_func k i (size_w ht)) = (unat k + unat i) mod length (table ht)"
    using e probe_func_unat [OF e32] by simp
  show "unat (probe_func k i (size_w ht)) < length (table ht)"
  proof -
    have "0 < length (table ht)" using n2 by linarith
    then show ?thesis by (simp only: p mod_less_divisor)
  qed
qed

lemma table_ok_facts:
  assumes "table_ok ht"
  shows "unat (size_w ht) = length (table ht)"
    and "2 \<le> length (table ht)"
    and "length (table ht) \<le> 2 ^ 30"
    and "unat (probe_func k i (size_w ht)) = (unat k + unat i) mod length (table ht)"
    and "unat (probe_func k i (size_w ht)) < length (table ht)"
    and "slots_ok (table ht)"
  using assms sized_facts [of ht] by (simp_all add: table_ok_def)

lemma unat_Suc_bounded:
  assumes "unat (w :: 32 word) < 2 ^ 30"
  shows "unat (w + 1) = Suc (unat w)"
proof -
  have "unat w + unat (1 :: 32 word) < 2 ^ LENGTH(32)" using assms by simp
  then have "unat (w + 1) = unat w + unat (1 :: 32 word)" by (simp only: unat_add_lem)
  then show ?thesis by simp
qed

lemma contents_swap:
  assumes "x < length t" "occupied (t ! x)" "occupied N"
  shows "add_mset (entry_content (t ! x)) (contents (t[x := N])) = add_mset (entry_content N) (contents t)"
    and "size (contents (t[x := N])) = size (contents t)"
proof -
  have "t ! x \<in># filter_mset occupied (mset t)" using assms by simp
  then have m: "entry_content (t ! x) \<in># contents t" by (simp add: contents_def)
  have c: "contents (t[x := N]) = add_mset (entry_content N) (contents t - {#entry_content (t ! x)#})"
    using assms by (simp add: contents_update)
  show "add_mset (entry_content (t ! x)) (contents (t[x := N])) = add_mset (entry_content N) (contents t)"
    using m by (simp add: c)
  show "size (contents (t[x := N])) = size (contents t)"
    using m by (simp add: c size_Diff_singleton) (metis Suc_pred nonempty_has_size size_Diff_singleton empty_iff set_mset_empty)
qed

lemma contents_fill:
  assumes "x < length t" "\<not> occupied (t ! x)" "occupied N"
  shows "contents (t[x := N]) = add_mset (entry_content N) (contents t)"
  using assms by (simp add: contents_update)

definition carried_ok :: "('k, 'v) hashtab \<Rightarrow> 32 word \<Rightarrow> 32 word \<Rightarrow> ('k, 'v) htentry \<Rightarrow> bool" where
  "carried_ok ht hk i N \<longleftrightarrow>
     occupied N \<and> unat (psl N) \<le> unat i \<and>
     (unat (hash_key N) + unat (psl N)) mod length (table ht) = (unat hk + unat i) mod length (table ht) \<and>
     (psl N \<noteq> 0 \<longrightarrow>
        occupied (table ht ! pred_slot (length (table ht)) ((unat hk + unat i) mod length (table ht))) \<and>
        unat (psl N) \<le> Suc (unat (psl (table ht ! pred_slot (length (table ht)) ((unat hk + unat i) mod length (table ht))))))"

definition insert_post ::
  "('k, 'v) hashtab \<Rightarrow> ('k, 'v) htentry \<Rightarrow> HTResult \<times> ('k, 'v) hashtab \<Rightarrow> bool" where
  "insert_post ht N r \<longleftrightarrow>
     table_ok (snd r) \<and> size_w (snd r) = size_w ht \<and> same_config ht (snd r) \<and>
     (fst r = HT_SUCCESS \<and>
        contents (table (snd r)) = add_mset (entry_content N) (contents (table ht)) \<and>
        active (snd r) = active ht + 1
      \<or> fst r = HT_FAILURE \<and>
        contents (table (snd r)) \<subseteq># add_mset (entry_content N) (contents (table ht)) \<and>
        size (contents (table (snd r))) = size (contents (table ht)) \<and>
        active (snd r) = active ht)"

lemma insert_loop_post:
  "table_ok ht \<Longrightarrow> unat i \<le> length (table ht) \<Longrightarrow> carried_ok ht hk i N \<Longrightarrow>
   insert_post ht N (insert_loop ht hk N i)"
proof (induction ht hk N i rule: insert_loop.induct)
  case (1 ht hk N i)
  let ?t = "table ht"
  let ?n = "length ?t"
  note ok = \<open>table_ok ht\<close>
  note car = \<open>carried_ok ht hk i N\<close>
  note f = table_ok_facts [OF ok]
  have occN: "occupied N" using car by (simp add: carried_ok_def)
  show ?case
  proof (cases "i < size_w ht")
    case False
    then have "insert_loop ht hk N i = (HT_FAILURE, ht)"
      by (simp add: insert_loop.simps)
    then show ?thesis using ok by (simp add: insert_post_def same_config_def)
  next
    case True
    then have i_lt: "unat i < ?n" using f(1) by (simp add: word_less_nat_alt)
    have i_suc: "unat (i + 1) = Suc (unat i)" using True by (rule word_less_unat_Suc)
    define x where "x = probe_func hk i (size_w ht)"
    define E where "E = ?t ! unat x"
    have x_eq: "unat x = (unat hk + unat i) mod ?n" unfolding x_def by (rule f(4))
    have x_lt: "unat x < ?n" unfolding x_def by (rule f(5))
    have pslN: "unat (psl N) \<le> unat i" using car by (simp add: carried_ok_def)
    have sN: "slot_ok ?n (unat x) N"
      using car i_lt pslN by (simp add: carried_ok_def slot_ok_def x_eq)
    have pend: "psl N \<noteq> 0 \<Longrightarrow> occupied (?t ! pred_slot ?n (unat x)) \<and>
                 unat (psl N) \<le> Suc (unat (psl (?t ! pred_slot ?n (unat x))))"
      using car by (simp add: carried_ok_def x_eq)
    have nxt: "(unat hk + unat (i + 1)) mod ?n = Suc (unat x) mod ?n"
      by (simp add: i_suc x_eq mod_Suc_eq)
    have pnxt: "pred_slot ?n ((unat hk + unat (i + 1)) mod ?n) = unat x"
      using x_lt by (simp only: nxt pred_slot_succ)
    show ?thesis
    proof (cases "key E = None")
      case empty: True
      then have nocc: "\<not> occupied (?t ! unat x)" by (simp add: occupied_def E_def)
      let ?ht' = "ht\<lparr>table := ?t[unat x := N], active := active ht + 1\<rparr>"
      have res: "insert_loop ht hk N i = (HT_SUCCESS, ?ht')"
        using True empty by (subst insert_loop.simps) (auto simp: x_def E_def Let_def)
      have "slots_ok (?t[unat x := N])"
        by (rule slots_ok_place) (use f(6) f(2) x_lt occN sN pend nocc in simp_all)
      then have "table_ok ?ht'" using ok by (simp add: table_ok_def sized_def)
      moreover have "contents (table ?ht') = add_mset (entry_content N) (contents ?t)"
        using contents_fill [OF x_lt nocc occN] by simp
      ultimately show ?thesis
        by (simp add: res insert_post_def same_config_def)
    next
      case full: False
      then have occE: "occupied (?t ! unat x)" by (simp add: occupied_def E_def)
      have sE: "slot_ok ?n (unat x) E"
        using f(6) x_lt occE by (simp add: slots_ok_def E_def)
      have pslE_lt: "unat (psl E) < 2 ^ 30" using sE f(3) by (simp add: slot_ok_def)
      have pslN_lt: "unat (psl N) < 2 ^ 30" using pslN i_lt f(3) by simp
      show ?thesis
      proof (cases "psl E < psl N")
        case swap: True
        let ?ht' = "ht\<lparr>table := ?t[unat x := N]\<rparr>"
        let ?E' = "E\<lparr>psl := psl E + 1\<rparr>"
        have res: "insert_loop ht hk N i = insert_loop ?ht' hk ?E' (i + 1)"
          using True full swap by (subst insert_loop.simps) (auto simp: x_def E_def Let_def)
        have lt: "unat (psl E) < unat (psl N)" using swap by (simp add: word_less_nat_alt)
        have "slots_ok (?t[unat x := N])"
          by (rule slots_ok_place) (use f(6) f(2) x_lt occN sN pend lt in \<open>simp_all add: E_def\<close>)
        then have ok': "table_ok ?ht'" using ok by (simp add: table_ok_def sized_def)
        have pE': "unat (psl E + 1) = Suc (unat (psl E))"
          using pslE_lt by (simp add: unat_Suc_bounded)
        have car': "carried_ok ?ht' hk (i + 1) ?E'"
          unfolding carried_ok_def
        proof (intro conjI impI)
          show "occupied ?E'" using occE by (simp add: occupied_def E_def)
          show "unat (psl ?E') \<le> unat (i + 1)" using lt pslN by (simp add: pE' i_suc)
          have "(unat (hash_key E) + Suc (unat (psl E))) mod ?n = Suc (unat x) mod ?n"
            using sE by (metis add_Suc_right mod_Suc_eq slot_ok_def)
          then show "(unat (hash_key ?E') + unat (psl ?E')) mod length (table ?ht') =
              (unat hk + unat (i + 1)) mod length (table ?ht')"
            by (simp add: pE' nxt)
          show "occupied (table ?ht' ! pred_slot (length (table ?ht'))
                  ((unat hk + unat (i + 1)) mod length (table ?ht')))"
            using pnxt x_lt occN by simp
          show "unat (psl ?E') \<le> Suc (unat (psl (table ?ht' ! pred_slot (length (table ?ht'))
                  ((unat hk + unat (i + 1)) mod length (table ?ht')))))"
            using pnxt x_lt lt by (simp add: pE')
        qed
        have "insert_post ?ht' ?E' (insert_loop ?ht' hk ?E' (i + 1))"
          using True x_def E_def full swap ok' _ car'
        proof (rule "1.IH"(1))
          show "unat (i + 1) \<le> length (table ?ht')" using i_lt by (simp add: i_suc)
        qed
        moreover have "add_mset (entry_content ?E') (contents (table ?ht')) =
            add_mset (entry_content N) (contents ?t)"
          using contents_swap(1) [OF x_lt occE occN] by (simp add: entry_content_def E_def)
        moreover have "size (contents (table ?ht')) = size (contents ?t)"
          using contents_swap(2) [OF x_lt occE occN] by simp
        ultimately show ?thesis
          by (simp add: res insert_post_def same_config_def)
      next
        case keep: False
        let ?N' = "N\<lparr>psl := psl N + 1\<rparr>"
        have res: "insert_loop ht hk N i = insert_loop ht hk ?N' (i + 1)"
          using True full keep by (subst insert_loop.simps) (auto simp: x_def E_def Let_def)
        have le: "unat (psl N) \<le> unat (psl E)" using keep by (simp add: word_less_nat_alt)
        have pN': "unat (psl N + 1) = Suc (unat (psl N))"
          using pslN_lt by (simp add: unat_Suc_bounded)
        have car': "carried_ok ht hk (i + 1) ?N'"
          unfolding carried_ok_def
        proof (intro conjI impI)
          show "occupied ?N'" using occN by (simp add: occupied_def)
          show "unat (psl ?N') \<le> unat (i + 1)" using pslN by (simp add: pN' i_suc)
          have "(unat (hash_key N) + Suc (unat (psl N))) mod ?n = Suc (unat x) mod ?n"
            using sN by (metis add_Suc_right mod_Suc_eq slot_ok_def)
          then show "(unat (hash_key ?N') + unat (psl ?N')) mod ?n = (unat hk + unat (i + 1)) mod ?n"
            by (simp add: pN' nxt)
          show "occupied (?t ! pred_slot ?n ((unat hk + unat (i + 1)) mod ?n))"
            using pnxt occE by simp
          show "unat (psl ?N') \<le> Suc (unat (psl (?t ! pred_slot ?n ((unat hk + unat (i + 1)) mod ?n))))"
            using pnxt le by (simp add: pN' E_def)
        qed
        have "insert_post ht ?N' (insert_loop ht hk ?N' (i + 1))"
          using True x_def E_def full keep ok _ car'
        proof (rule "1.IH"(2))
          show "unat (i + 1) \<le> ?n" using i_lt by (simp add: i_suc)
        qed
        then show ?thesis
          by (simp add: res insert_post_def entry_content_def)
      qed
    qed
  qed
qed

lemma insert_entry_post:
  assumes "table_ok ht" "k \<noteq> None"
  shows "insert_post ht \<lparr>hash_key = hk, psl = 0, key = k, val = v\<rparr> (insert_entry ht hk k v)"
  unfolding insert_entry_def
  by (rule insert_loop_post) (use assms in \<open>simp_all add: carried_ok_def occupied_def\<close>)

lemma probe_covers:
  assumes "0 < n" "x < n"
  shows "\<exists>j < n. (h + j) mod n = (x :: nat)"
proof (intro exI conjI)
  let ?j = "(x + n - h mod n) mod n"
  show "?j < n" using assms by simp
  have "h mod n < n" using assms by simp
  then have "h mod n + (x + n - h mod n) = x + n" by linarith
  then have "(h mod n + (x + n - h mod n)) mod n = x" using assms by simp
  then show "(h + ?j) mod n = x"
    by (metis mod_add_eq mod_mod_trivial)
qed

lemma insert_loop_success:
  "sized ht \<Longrightarrow> occupied N \<Longrightarrow> unat i \<le> length (table ht) \<Longrightarrow>
   \<forall>j < unat i. occupied (table ht ! ((unat hk + j) mod length (table ht))) \<Longrightarrow>
   size (contents (table ht)) < length (table ht) \<Longrightarrow>
   fst (insert_loop ht hk N i) = HT_SUCCESS"
proof (induction ht hk N i rule: insert_loop.induct)
  case (1 ht hk N i)
  let ?t = "table ht"
  let ?n = "length ?t"
  note sz = \<open>sized ht\<close>
  note f = sized_facts [OF sz]
  note occN = \<open>occupied N\<close>
  note seen = \<open>\<forall>j < unat i. occupied (?t ! ((unat hk + j) mod ?n))\<close>
  note room = \<open>size (contents ?t) < ?n\<close>
  show ?case
  proof (cases "i < size_w ht")
    case False
    then have "unat i = ?n" using f(1) \<open>unat i \<le> ?n\<close> by (simp add: word_less_nat_alt)
    have "\<forall>x < ?n. occupied (?t ! x)"
    proof (intro allI impI)
      fix x assume "x < ?n"
      then obtain j where "j < ?n" "(unat hk + j) mod ?n = x"
        using probe_covers [of ?n x "unat hk"] f(2) by (cases "?n = 0") auto
      then show "occupied (?t ! x)" using seen \<open>unat i = ?n\<close> by auto
    qed
    then have "size (contents ?t) = ?n" by (rule contents_full)
    with room show ?thesis by simp
  next
    case True
    then have i_lt: "unat i < ?n" using f(1) by (simp add: word_less_nat_alt)
    have i_suc: "unat (i + 1) = Suc (unat i)" using True by (rule word_less_unat_Suc)
    define x where "x = probe_func hk i (size_w ht)"
    define E where "E = ?t ! unat x"
    have x_eq: "unat x = (unat hk + unat i) mod ?n" unfolding x_def by (rule f(4))
    have x_lt: "unat x < ?n" unfolding x_def by (rule f(5))
    show ?thesis
    proof (cases "key E = None")
      case True
      with \<open>i < size_w ht\<close> show ?thesis
        by (subst insert_loop.simps) (auto simp: x_def E_def Let_def)
    next
      case full: False
      then have occE: "occupied (?t ! unat x)" by (simp add: occupied_def E_def)
      show ?thesis
      proof (cases "psl E < psl N")
        case swap: True
        let ?ht' = "ht\<lparr>table := ?t[unat x := N]\<rparr>"
        let ?E' = "E\<lparr>psl := psl E + 1\<rparr>"
        have res: "insert_loop ht hk N i = insert_loop ?ht' hk ?E' (i + 1)"
          using True full swap by (subst insert_loop.simps) (auto simp: x_def E_def Let_def)
        have "fst (insert_loop ?ht' hk ?E' (i + 1)) = HT_SUCCESS"
          using True x_def E_def full swap
        proof (rule "1.IH"(1))
          show "sized ?ht'" using sz by (simp add: sized_def)
          show "occupied ?E'" using occE by (simp add: occupied_def E_def)
          show "unat (i + 1) \<le> length (table ?ht')" using i_lt by (simp add: i_suc)
          show "\<forall>j < unat (i + 1). occupied (table ?ht' ! ((unat hk + j) mod length (table ?ht')))"
          proof (intro allI impI)
            fix j assume "j < unat (i + 1)"
            then have "j < unat i \<or> j = unat i" by (auto simp: i_suc)
            then show "occupied (table ?ht' ! ((unat hk + j) mod length (table ?ht')))"
              using seen occN occE x_lt x_eq
              by (cases "(unat hk + j) mod ?n = unat x") auto
          qed
          show "size (contents (table ?ht')) < length (table ?ht')"
            using contents_swap(2) [OF x_lt occE occN] room by simp
        qed
        then show ?thesis by (simp add: res)
      next
        case keep: False
        let ?N' = "N\<lparr>psl := psl N + 1\<rparr>"
        have res: "insert_loop ht hk N i = insert_loop ht hk ?N' (i + 1)"
          using True full keep by (subst insert_loop.simps) (auto simp: x_def E_def Let_def)
        have "fst (insert_loop ht hk ?N' (i + 1)) = HT_SUCCESS"
          using True x_def E_def full keep sz
        proof (rule "1.IH"(2))
          show "occupied ?N'" using occN by (simp add: occupied_def)
          show "unat (i + 1) \<le> ?n" using i_lt by (simp add: i_suc)
          show "\<forall>j < unat (i + 1). occupied (?t ! ((unat hk + j) mod ?n))"
          proof (intro allI impI)
            fix j assume "j < unat (i + 1)"
            then have "j < unat i \<or> j = unat i" by (auto simp: i_suc)
            then show "occupied (?t ! ((unat hk + j) mod ?n))"
              using seen occE x_eq by auto
          qed
          show "size (contents ?t) < ?n" by (rule room)
        qed
        then show ?thesis by (simp add: res)
      qed
    qed
  qed
qed

lemma insert_entry_success:
  assumes "sized ht" "k \<noteq> None" "size (contents (table ht)) < length (table ht)"
  shows "fst (insert_entry ht hk k v) = HT_SUCCESS"
  unfolding insert_entry_def
  by (rule insert_loop_success) (use assms in \<open>simp_all add: occupied_def\<close>)

lemma inv_active_bound:
  assumes "ht_inv ht"
  shows "unat (active ht) \<le> length (table ht)" and "unat (active ht) < 2 ^ 30 + 1"
    and "unat (active ht + 1) = Suc (unat (active ht))"
proof -
  have ok: "table_ok ht" and a: "unat (active ht) = size (contents (table ht))"
    using assms by (simp_all add: ht_inv_def)
  show le: "unat (active ht) \<le> length (table ht)" using a contents_size_le [of "table ht"] by simp
  then show lt: "unat (active ht) < 2 ^ 30 + 1" using table_ok_facts(3) [OF ok] by simp
  have "unat (active ht) + unat (1 :: 32 word) < 2 ^ LENGTH(32)" using lt by simp
  then have "unat (active ht + 1) = unat (active ht) + unat (1 :: 32 word)"
    by (simp only: unat_add_lem)
  then show "unat (active ht + 1) = Suc (unat (active ht))" by simp
qed

lemma insert_post_inv:
  assumes "ht_inv ht" "insert_post ht N r"
  shows "ht_inv (snd r)"
proof -
  from assms(2) have ok': "table_ok (snd r)" by (simp add: insert_post_def)
  from assms(1) have a: "unat (active ht) = size (contents (table ht))" by (simp add: ht_inv_def)
  from assms(2) have "unat (active (snd r)) = size (contents (table (snd r)))"
    using a inv_active_bound(3) [OF assms(1)] by (auto simp: insert_post_def)
  with ok' show ?thesis by (simp add: ht_inv_def)
qed

lemma insert_post_sub:
  assumes "insert_post ht N r"
  shows "contents (table (snd r)) \<subseteq># add_mset (entry_content N) (contents (table ht))"
  using assms by (auto simp: insert_post_def)

text \<open>One round of the loop of \<open>rehash_entries\<close> on an occupied slot of the old array.\<close>

definition rehash_step :: "('k, 'v) hashtab \<Rightarrow> ('k, 'v) htentry \<Rightarrow> ('k, 'v) hashtab" where
  "rehash_step ht e = snd (insert_entry ht (hash_key e) (key e) (val e))"

lemma rehash_loop_foldl:
  "unat old_size = length old_table \<Longrightarrow> unat i \<le> length old_table \<Longrightarrow>
   rehash_loop ht old_table old_size i =
     foldl rehash_step ht (filter occupied (drop (unat i) old_table))"
proof (induction ht old_table old_size i rule: rehash_loop.induct)
  case (1 ht old_table old_size i)
  show ?case
  proof (cases "i < old_size")
    case False
    then have "unat i = length old_table" using "1.prems" by (simp add: word_less_nat_alt)
    then show ?thesis using False by (subst rehash_loop.simps) simp
  next
    case True
    then have i_lt: "unat i < length old_table" using "1.prems" by (simp add: word_less_nat_alt)
    have i_suc: "unat (i + 1) = Suc (unat i)" using True by (rule word_less_unat_Suc)
    have d: "drop (unat i) old_table = old_table ! unat i # drop (unat (i + 1)) old_table"
      using i_lt by (simp add: i_suc Cons_nth_drop_Suc)
    have le: "unat (i + 1) \<le> length old_table" using i_lt by (simp add: i_suc)
    show ?thesis
    proof (cases "key (old_table ! unat i) \<noteq> None")
      case occ: True
      let ?h = "snd (insert_entry ht (hash_key (old_table ! unat i)) (key (old_table ! unat i))
                     (val (old_table ! unat i)))"
      have "rehash_loop ht old_table old_size i = rehash_loop ?h old_table old_size (i + 1)"
        using True occ by (subst rehash_loop.simps) simp
      also have "\<dots> = foldl rehash_step ?h (filter occupied (drop (unat (i + 1)) old_table))"
        using True occ "1.prems"(1) le by (rule "1.IH"(1))
      finally have r: "rehash_loop ht old_table old_size i =
          foldl rehash_step ?h (filter occupied (drop (unat (i + 1)) old_table))" .
      have oe: "occupied (old_table ! unat i)" using occ by (simp add: occupied_def)
      have st: "rehash_step ht (old_table ! unat i) = ?h" by (simp add: rehash_step_def)
      show ?thesis using oe by (simp add: d st r)
    next
      case emp: False
      have "rehash_loop ht old_table old_size i = rehash_loop ht old_table old_size (i + 1)"
        using True emp by (subst rehash_loop.simps) simp
      also have "\<dots> = foldl rehash_step ht (filter occupied (drop (unat (i + 1)) old_table))"
        using True emp "1.prems"(1) le by (rule "1.IH"(2))
      finally have r: "rehash_loop ht old_table old_size i =
          foldl rehash_step ht (filter occupied (drop (unat (i + 1)) old_table))" .
      have oe: "\<not> occupied (old_table ! unat i)" using emp by (simp add: occupied_def)
      show ?thesis using oe by (simp add: d r)
    qed
  qed
qed

lemma rehash_step_post:
  assumes "ht_inv ht" "occupied e"
  shows "ht_inv (rehash_step ht e)"
    and "size_w (rehash_step ht e) = size_w ht"
    and "same_config ht (rehash_step ht e)"
    and "contents (table (rehash_step ht e)) \<subseteq># add_mset (entry_content e) (contents (table ht))"
proof -
  have ok: "table_ok ht" using assms(1) by (simp add: ht_inv_def)
  have k: "key e \<noteq> None" using assms(2) by (simp add: occupied_def)
  note p = insert_entry_post [OF ok k, of "hash_key e" "val e"]
  show "ht_inv (rehash_step ht e)" unfolding rehash_step_def using assms(1) p by (rule insert_post_inv)
  show "size_w (rehash_step ht e) = size_w ht" using p by (simp add: rehash_step_def insert_post_def)
  show "same_config ht (rehash_step ht e)" using p by (simp add: rehash_step_def insert_post_def)
  show "contents (table (rehash_step ht e)) \<subseteq># add_mset (entry_content e) (contents (table ht))"
    using insert_post_sub [OF p] by (simp add: rehash_step_def entry_content_def)
qed

lemma same_config_refl: "same_config ht ht"
  by (simp add: same_config_def)

lemma same_config_trans: "same_config a b \<Longrightarrow> same_config b c \<Longrightarrow> same_config a c"
  by (simp add: same_config_def)

lemma foldl_rehash_post:
  "ht_inv ht \<Longrightarrow> \<forall>e \<in> set es. occupied e \<Longrightarrow>
   ht_inv (foldl rehash_step ht es) \<and> size_w (foldl rehash_step ht es) = size_w ht \<and>
   same_config ht (foldl rehash_step ht es) \<and>
   contents (table (foldl rehash_step ht es)) \<subseteq># contents (table ht) + image_mset entry_content (mset es)"
proof (induction es arbitrary: ht)
  case Nil
  then show ?case by (simp add: same_config_refl)
next
  case (Cons e es)
  have oe: "occupied e" using Cons.prems(2) by simp
  note s = rehash_step_post [OF Cons.prems(1) oe]
  have ih: "ht_inv (foldl rehash_step (rehash_step ht e) es) \<and>
      size_w (foldl rehash_step (rehash_step ht e) es) = size_w (rehash_step ht e) \<and>
      same_config (rehash_step ht e) (foldl rehash_step (rehash_step ht e) es) \<and>
      contents (table (foldl rehash_step (rehash_step ht e) es))
        \<subseteq># contents (table (rehash_step ht e)) + image_mset entry_content (mset es)"
    by (rule Cons.IH) (use s(1) Cons.prems(2) in simp_all)
  have a: "contents (table (foldl rehash_step (rehash_step ht e) es))
        \<subseteq># contents (table (rehash_step ht e)) + image_mset entry_content (mset es)"
    using ih by simp
  have b: "contents (table (rehash_step ht e)) + image_mset entry_content (mset es)
        \<subseteq># add_mset (entry_content e) (contents (table ht)) + image_mset entry_content (mset es)"
    using s(4) by (simp only: mset_subset_eq_mono_add_right_cancel)
  have "contents (table (foldl rehash_step (rehash_step ht e) es))
        \<subseteq># add_mset (entry_content e) (contents (table ht)) + image_mset entry_content (mset es)"
    using a b by (rule subset_mset.order_trans)
  then have "contents (table (foldl rehash_step (rehash_step ht e) es))
        \<subseteq># contents (table ht) + image_mset entry_content (mset (e # es))"
    by simp
  with ih s show ?case by (auto intro: same_config_trans)
qed

lemma validate_size_pow2:
  assumes "e \<le> 30"
  shows "validate_size s (2 ^ e) = HT_SUCCESS"
proof -
  have e32: "e < 32" using assms by simp
  have "(2 :: nat) ^ e \<le> 2 ^ 30" by (rule power_increasing) (use assms in simp_all)
  then have u: "unat ((2 :: 32 word) ^ e) \<le> 2 ^ 30" by (simp only: pow2_word_unat [OF e32])
  have "unat ((2 :: 32 word) ^ e) \<noteq> 0" by (simp only: pow2_word_unat [OF e32]) simp
  then have nz: "(2 :: 32 word) ^ e \<noteq> 0" by (metis unat_0)
  have "\<not> (2 :: 32 word) ^ e > UINT32_MAX div 2"
    using u by (simp add: UINT32_MAX_def word_less_nat_alt)
  with nz show ?thesis by (simp add: validate_size_def)
qed

lemma validate_size_grow:
  assumes "e \<le> 30" "validate_size s (push_bit 1 ((2 :: 32 word) ^ e)) = HT_SUCCESS"
  shows "Suc e \<le> 30" and "push_bit 1 ((2 :: 32 word) ^ e) = 2 ^ Suc e"
proof -
  show p: "push_bit 1 ((2 :: 32 word) ^ e) = 2 ^ Suc e" by (simp add: push_bit_eq_mult)
  have e32: "Suc e < 32" using assms(1) by simp
  have "\<not> (2 :: 32 word) ^ Suc e > UINT32_MAX div 2"
    using assms(2) unfolding p by (simp add: validate_size_def split: if_splits)
  then have "unat ((2 :: 32 word) ^ Suc e) \<le> 2147483647"
    by (simp add: UINT32_MAX_def word_less_nat_alt)
  then have "(2 :: nat) ^ Suc e < 2 ^ 31" by (simp only: pow2_word_unat [OF e32]) simp
  then have "Suc e < 31" by (simp only: power_strict_increasing_iff) 
  then show "Suc e \<le> 30" by simp
qed

lemma pow2_word_half:
  assumes "1 \<le> e" "e \<le> 30"
  shows "(2 :: 32 word) ^ e div 2 = 2 ^ (e - 1)"
proof -
  obtain d where d: "e = Suc d" using assms(1) by (cases e) auto
  have "unat ((2 :: 32 word) ^ e div 2) = unat ((2 :: 32 word) ^ e) div 2"
    by (simp add: unat_div)
  also have "\<dots> = 2 ^ e div 2" using assms(2) by (simp add: pow2_word_unat)
  also have "\<dots> = 2 ^ d" by (simp add: d)
  also have "\<dots> = unat ((2 :: 32 word) ^ d)" using assms(2) d by (simp add: pow2_word_unat)
  finally have "(2 :: 32 word) ^ e div 2 = 2 ^ d" by (rule word_unat_eq_iff [THEN iffD2])
  then show ?thesis by (simp add: d)
qed

lemma pow2_word_gt2:
  assumes "e \<le> 30" "(2 :: 32 word) ^ e > 2"
  shows "2 \<le> e"
proof (rule ccontr)
  assume "\<not> 2 \<le> e"
  then have "e = 0 \<or> e = 1" by auto
  then show False using assms(2) by auto
qed

lemma contents_replicate_zero: "contents (replicate n (zero_entry :: ('k, 'v) htentry)) = {#}"
  by (induction n) (simp_all add: contents_def occupied_def zero_entry_def)

lemma empty_table_inv:
  assumes "e \<in> {1..30}"
  shows "ht_inv (ht\<lparr>table := replicate (unat ((2 :: 32 word) ^ e)) zero_entry,
                     size_w := 2 ^ e, active := 0\<rparr>)"
proof -
  have e32: "e < 32" using assms by simp
  let ?t = "replicate (unat ((2 :: 32 word) ^ e)) (zero_entry :: ('a, 'b) htentry)"
  have "slots_ok ?t"
    by (simp add: slots_ok_def rh_local_def occupied_def zero_entry_def)
  moreover have "sized (ht\<lparr>table := ?t, size_w := 2 ^ e, active := 0\<rparr>)"
    using assms by (auto simp: sized_def pow2_word_unat [OF e32])
  ultimately show "ht_inv (ht\<lparr>table := ?t, size_w := 2 ^ e, active := 0\<rparr>)"
    by (simp add: ht_inv_def table_ok_def contents_replicate_zero)
qed

lemma resize_post:
  assumes iv: "ht_inv ht" and e: "e \<in> {1..30}"
  shows "ht_inv (snd (resize ht (2 ^ e) alloc))"
    and "same_config ht (snd (resize ht (2 ^ e) alloc))"
    and "contents (table (snd (resize ht (2 ^ e) alloc))) \<subseteq># contents (table ht)"
    and "resize ht (2 ^ e) alloc = (if alloc then (HT_SUCCESS, snd (resize ht (2 ^ e) alloc)) else (HT_MEM_ERROR, ht))"
    and "size_w (snd (resize ht (2 ^ e) alloc)) = (if alloc then 2 ^ e else size_w ht)"
proof -
  have v: "validate_size (size_w ht) (2 ^ e) = HT_SUCCESS"
    using e by (simp add: validate_size_pow2)
  let ?h0 = "ht\<lparr>table := replicate (unat ((2 :: 32 word) ^ e)) zero_entry, size_w := 2 ^ e, active := 0\<rparr>"
  let ?es = "filter occupied (table ht)"
  let ?r = "foldl rehash_step ?h0 ?es"
  have ok: "table_ok ht" using iv by (simp add: ht_inv_def)
  have len: "unat (size_w ht) = length (table ht)" by (rule table_ok_facts(1) [OF ok])
  have re: "rehash_entries ?h0 (table ht) (size_w ht) = ?r"
    unfolding rehash_entries_def using rehash_loop_foldl [OF len, of 0 ?h0] by simp
  have res: "resize ht (2 ^ e) alloc = (if alloc then (HT_SUCCESS, ?r) else (HT_MEM_ERROR, ht))"
    using v re by (simp add: resize_def Let_def)
  have iv0: "ht_inv ?h0" using e by (rule empty_table_inv)
  have c0: "contents (table ?h0) = {#}" by (simp add: contents_replicate_zero)
  have p: "ht_inv ?r \<and> size_w ?r = size_w ?h0 \<and> same_config ?h0 ?r \<and>
      contents (table ?r) \<subseteq># contents (table ?h0) + image_mset entry_content (mset ?es)"
    by (rule foldl_rehash_post) (use iv0 in simp_all)
  have sub: "contents (table ?r) \<subseteq># contents (table ht)"
    using p by (simp only: c0) (simp add: contents_def)
  have sc: "same_config ht ?r" using p by (simp add: same_config_def)
  show "ht_inv (snd (resize ht (2 ^ e) alloc))" using p iv by (simp add: res)
  show "same_config ht (snd (resize ht (2 ^ e) alloc))" using sc by (simp add: res same_config_refl)
  show "contents (table (snd (resize ht (2 ^ e) alloc))) \<subseteq># contents (table ht)"
    using sub by (simp add: res)
  show "resize ht (2 ^ e) alloc = (if alloc then (HT_SUCCESS, snd (resize ht (2 ^ e) alloc)) else (HT_MEM_ERROR, ht))"
    using res by (cases alloc) simp_all
  show "size_w (snd (resize ht (2 ^ e) alloc)) = (if alloc then 2 ^ e else size_w ht)"
    using p by (simp add: res)
qed

section \<open>Example tables\<close>

text \<open>
  A concrete instance for evaluating the operations: the key data is a 32-bit integer, the
  hash of a key is the key itself, values are natural numbers.
\<close>

definition ex_hash :: "32 word \<Rightarrow> nat \<Rightarrow> 32 word" where
  "ex_hash k len = k"

definition ex_cmp :: "32 word \<Rightarrow> 32 word \<Rightarrow> int" where
  "ex_cmp a b = (if a = b then 0 else if a < b then - 1 else 1)"

definition ex_config :: "float32 \<Rightarrow> float32 \<Rightarrow> 32 word HTConfig" where
  "ex_config lf mlf =
     \<lparr>cfg_load_factor = lf, cfg_min_load_factor = mlf, cfg_hash_func = Some ex_hash,
      cfg_cmp_func = Some ex_cmp, cfg_free_key = False, cfg_free_val = False\<rparr>"

text \<open>The table \<open>ht_create\<close> returns for \<open>ex_config lf mlf\<close>, and a slot array with given slots.\<close>

definition ex_table :: "float32 \<Rightarrow> float32 \<Rightarrow> (32 word, nat) hashtab" where
  "ex_table lf mlf =
     \<lparr>table = replicate 2 zero_entry, size_w = 2, active = 0, load_factor = lf,
      min_load_factor = mlf, hash_func = ex_hash, cmp_func = ex_cmp,
      free_key = False, free_val = False\<rparr>"

definition slot :: "32 word \<Rightarrow> 32 word \<Rightarrow> 32 word \<Rightarrow> nat option \<Rightarrow> (32 word, nat) htentry" where
  "slot h p k v = \<lparr>hash_key = h, psl = p, key = Some k, val = v\<rparr>"

text \<open>
  During the backward shift the slot at \<open>current_index\<close> is a hole: whatever it holds is
  overwritten or marked empty before the loop returns. \<open>holed t c\<close> is the slot array with
  the hole made explicit.
\<close>

definition holed :: "('k, 'v) htentry list \<Rightarrow> nat \<Rightarrow> ('k, 'v) htentry list" where
  "holed t c = t[c := (t ! c)\<lparr>key := None\<rparr>]"

definition psl_sum :: "('k, 'v) htentry list \<Rightarrow> nat" where
  "psl_sum t = sum_mset (image_mset (\<lambda>e. unat (psl e)) (filter_mset occupied (mset t)))"

definition hole_ok :: "('k, 'v) htentry list \<Rightarrow> nat \<Rightarrow> bool" where
  "hole_ok t c \<longleftrightarrow>
     c < length t \<and> 2 \<le> length t \<and>
     (\<forall>x < length t. occupied (holed t c ! x) \<longrightarrow> slot_ok (length t) x (holed t c ! x)) \<and>
     (\<forall>x < length t. x \<noteq> Suc c mod length t \<longrightarrow> rh_local (holed t c) x) \<and>
     (occupied (t ! (Suc c mod length t)) \<and> 2 \<le> unat (psl (t ! (Suc c mod length t))) \<longrightarrow>
        occupied (holed t c ! pred_slot (length t) c) \<and>
        unat (psl (t ! (Suc c mod length t))) \<le> unat (psl (holed t c ! pred_slot (length t) c)) + 2)"

lemma psl_sum_update:
  assumes "x < length t"
  shows "psl_sum (t[x := e]) =
           (psl_sum t - (if occupied (t ! x) then unat (psl (t ! x)) else 0))
           + (if occupied e then unat (psl e) else 0)"
    and "occupied (t ! x) \<Longrightarrow> unat (psl (t ! x)) \<le> psl_sum t"
proof -
  let ?f = "\<lambda>e :: ('a, 'b) htentry. unat (psl e)"
  define R where "R = mset t - {#t ! x#}"
  define G where "G = filter_mset occupied R"
  have in_t: "t ! x \<in># mset t" using assms by simp
  have upd: "mset (t[x := e]) = add_mset e R"
    unfolding R_def using assms by (rule mset_update)
  have new: "psl_sum (t[x := e]) = sum_mset (image_mset ?f G) + (if occupied e then unat (psl e) else 0)"
    by (simp add: psl_sum_def upd G_def)
  have split: "mset t = add_mset (t ! x) R"
    unfolding R_def using in_t by (rule insert_DiffM [symmetric])
  have old: "psl_sum t = (if occupied (t ! x) then unat (psl (t ! x)) else 0) + sum_mset (image_mset ?f G)"
    by (simp add: psl_sum_def split G_def)
  show "occupied (t ! x) \<Longrightarrow> unat (psl (t ! x)) \<le> psl_sum t"
    by (simp add: old)
  show "psl_sum (t[x := e]) =
           (psl_sum t - (if occupied (t ! x) then unat (psl (t ! x)) else 0))
           + (if occupied e then unat (psl e) else 0)"
    by (simp add: old new)
qed

lemma holed_simps:
  "length (holed t c) = length t"
  "x \<noteq> c \<Longrightarrow> holed t c ! x = t ! x"
  "c < length t \<Longrightarrow> \<not> occupied (holed t c ! c)"
  by (simp_all add: holed_def occupied_def)

lemma Suc_mod_inj:
  assumes "Suc a mod n = Suc c mod n" "c < n"
  shows "a mod n = c"
proof -
  have "Suc (a mod n) mod n = Suc c mod n" using assms(1) by (simp add: mod_Suc_eq)
  moreover have "a mod n < n" using assms(2) by simp
  ultimately show ?thesis using assms(2)
    by (auto simp: mod_Suc split: if_splits)
qed

lemma Suc_mod_neq: "2 \<le> n \<Longrightarrow> c < n \<Longrightarrow> Suc c mod n \<noteq> c"
  by (auto simp: mod_Suc)

lemma length_holed [simp]: "length (holed t c) = length t"
  by (simp add: holed_def)

lemma Suc_Suc_mod_neq: "3 \<le> n \<Longrightarrow> c < n \<Longrightarrow> Suc (Suc c mod n) mod n \<noteq> c"
  by (auto simp: mod_Suc split: if_splits)

lemma shift_exit:
  assumes h: "hole_ok t c"
    and stop: "\<not> (occupied (t ! (Suc c mod length t)) \<and> psl (t ! (Suc c mod length t)) \<noteq> 0)"
  shows "slots_ok (holed t c)"
  unfolding slots_ok_def
proof (intro allI impI conjI)
  fix x assume "x < length (holed t c)"
  then have x: "x < length t" by (simp add: holed_simps)
  assume "occupied (holed t c ! x)"
  then show "slot_ok (length (holed t c)) x (holed t c ! x)"
    using h x by (simp add: hole_ok_def holed_simps)
next
  fix x assume "x < length (holed t c)"
  then have x: "x < length t" by (simp add: holed_simps)
  have c: "c < length t" "2 \<le> length t" using h by (simp_all add: hole_ok_def)
  show "rh_local (holed t c) x"
  proof (cases "x = Suc c mod length t")
    case True
    then have "x \<noteq> c" using Suc_mod_neq [OF c(2) c(1)] by simp
    then have "holed t c ! x = t ! x" by (simp add: holed_simps)
    then show ?thesis using stop True by (auto simp: rh_local_def)
  next
    case False
    then show ?thesis using h x by (simp add: hole_ok_def)
  qed
qed

lemma shift_step:
  assumes h: "hole_ok t c"
    and s: "s = Suc c mod length t"
    and occ: "occupied (t ! s)" and pos: "psl (t ! s) \<noteq> 0"
    and t1: "t1 = t[c := (t ! s)\<lparr>psl := psl (t ! s) - 1\<rparr>]"
  shows "hole_ok t1 s"
    and "contents (holed t1 s) = contents (holed t c)"
    and "psl_sum (holed t1 s) < psl_sum (holed t c)"
proof -
  let ?n = "length t"
  let ?T = "holed t c"
  let ?E = "t ! s"
  let ?E' = "?E\<lparr>psl := psl ?E - 1\<rparr>"
  let ?H = "?E\<lparr>key := None\<rparr>"
  let ?T' = "holed t1 s"
  have c: "c < ?n" and n2: "2 \<le> ?n" using h by (simp_all add: hole_ok_def)
  have npos: "0 < ?n" using c by linarith
  have s_lt: "s < ?n" unfolding s using npos by (rule mod_less_divisor)
  have sc: "s \<noteq> c" using Suc_mod_neq [OF n2 c] by (simp add: s)
  have pc: "pred_slot ?n s = c" using c by (simp add: s pred_slot_succ)
  have Ts: "?T ! s = ?E" using sc by (simp add: holed_simps)
  have T'_eq: "?T' = ?T[c := ?E', s := ?H]"
    using sc c s_lt by (simp add: holed_def t1 list_update_swap)
  have T'c: "?T' ! c = ?E'" using sc c s_lt by (simp add: T'_eq)
  have T's: "?T' ! s = ?H" using s_lt by (simp add: T'_eq holed_simps)
  have T'o: "\<And>y. y \<noteq> c \<Longrightarrow> y \<noteq> s \<Longrightarrow> ?T' ! y = ?T ! y" by (simp add: T'_eq)
  have len': "length t1 = ?n" by (simp add: t1)
  have occE': "occupied ?E'" using occ by (simp add: occupied_def)
  have nH: "\<not> occupied ?H" by (simp add: occupied_def)
  have sE: "slot_ok ?n s ?E" using h s_lt occ Ts by (auto simp: hole_ok_def)
  have p1: "1 \<le> unat (psl ?E)" using pos by (simp add: unat_gt_0 Suc_le_eq)
  have pE': "unat (psl ?E - 1) = unat (psl ?E) - 1" using pos by (simp add: unat_minus_one)
  have sE': "slot_ok ?n c ?E'"
  proof -
    have "Suc (unat (hash_key ?E) + (unat (psl ?E) - 1)) mod ?n = Suc c mod ?n"
      using sE p1 by (simp add: slot_ok_def s)
    then have "(unat (hash_key ?E) + (unat (psl ?E) - 1)) mod ?n = c"
      using c by (rule Suc_mod_inj)
    moreover have "unat (psl ?E) - 1 < ?n" using sE by (simp add: slot_ok_def less_imp_diff_less)
    ultimately show ?thesis by (simp add: slot_ok_def pE')
  qed
  have rh_c: "rh_local ?T' c"
  proof (cases "unat (psl ?E) = 1")
    case True
    then have "psl ?E' = 0" using pE' by (simp add: unat_eq_0)
    then show ?thesis by (simp add: rh_local_def T'c)
  next
    case False
    then have p2: "2 \<le> unat (psl ?E)" using p1 by simp
    have "3 \<le> ?n" using p2 sE by (simp add: slot_ok_def)
    then have ne: "Suc s mod ?n \<noteq> c" unfolding s using c by (rule Suc_Suc_mod_neq)
    have n3: "pred_slot ?n c \<noteq> s"
    proof
      assume "pred_slot ?n c = s"
      then have "Suc s mod ?n = c" using succ_pred_slot [OF c] by simp
      with ne show False by simp
    qed
    have n4: "pred_slot ?n c \<noteq> c" using n2 c by (rule pred_slot_neq)
    have "occupied (?T ! pred_slot ?n c) \<and> unat (psl ?E) \<le> unat (psl (?T ! pred_slot ?n c)) + 2"
      using h occ p2 by (simp add: hole_ok_def s)
    moreover have "?T' ! pred_slot ?n c = ?T ! pred_slot ?n c" using n4 n3 by (rule T'o)
    ultimately show ?thesis
      by (auto simp: rh_local_def T'c len' pE')
  qed
  show "hole_ok t1 s"
    unfolding hole_ok_def len'
  proof (intro conjI allI impI)
    show "s < ?n" by (rule s_lt)
    show "2 \<le> ?n" by (rule n2)
  next
    fix x assume x: "x < ?n" and o: "occupied (?T' ! x)"
    show "slot_ok ?n x (?T' ! x)"
    proof (cases "x = c")
      case True
      then show ?thesis using sE' by (simp add: T'c)
    next
      case False
      then have "x \<noteq> s" using o nH T's by auto
      then show ?thesis using False o h x by (simp add: T'o hole_ok_def)
    qed
  next
    fix x assume x: "x < ?n" and xs: "x \<noteq> Suc s mod ?n"
    show "rh_local ?T' x"
    proof (cases "x = c")
      case True
      then show ?thesis using rh_c by simp
    next
      case xc: False
      show ?thesis
      proof (cases "x = s")
        case True
        then show ?thesis using nH by (simp add: rh_local_def T's)
      next
        case False
        have a: "pred_slot ?n x \<noteq> s"
          using xs succ_pred_slot [OF x] by auto
        have b: "pred_slot ?n x \<noteq> c"
          using False succ_pred_slot [OF x] by (auto simp: s)
        have "rh_local ?T x" using h x False by (simp add: hole_ok_def s)
        moreover have "?T' ! x = ?T ! x" using xc False by (rule T'o)
        moreover have "?T' ! pred_slot ?n x = ?T ! pred_slot ?n x" using b a by (rule T'o)
        ultimately show ?thesis
          by (simp add: rh_local_def len')
      qed
    qed
  next
    assume a: "occupied (t1 ! (Suc s mod ?n)) \<and> 2 \<le> unat (psl (t1 ! (Suc s mod ?n)))"
    let ?s' = "Suc s mod ?n"
    have s'_lt: "?s' < ?n" using npos by (rule mod_less_divisor)
    have s's: "?s' \<noteq> s" using Suc_mod_neq [OF n2 s_lt] .
    have nc: "?s' \<noteq> c"
    proof
      assume "?s' = c"
      then have "t1 ! ?s' = ?E'" using c by (simp add: t1)
      moreover have "unat (psl ?E) < 2"
      proof -
        have "\<not> 3 \<le> ?n" using Suc_Suc_mod_neq [of ?n c] c \<open>?s' = c\<close> by (auto simp: s)
        then show ?thesis using sE by (simp add: slot_ok_def)
      qed
      ultimately show False using a pE' by simp
    qed
    have t1s': "t1 ! ?s' = ?T ! ?s'" using nc by (simp add: t1 holed_simps)
    have "rh_local ?T ?s'" using h s'_lt s's by (simp add: hole_ok_def s)
    moreover have "pred_slot ?n ?s' = s" using s_lt by (rule pred_slot_succ)
    ultimately have "unat (psl (?T ! ?s')) \<le> Suc (unat (psl ?E))"
      using a t1s' Ts by (auto simp: rh_local_def unat_eq_0)
    then show "occupied (?T' ! pred_slot ?n s)"
      and "unat (psl (t1 ! ?s')) \<le> unat (psl (?T' ! pred_slot ?n s)) + 2"
      using occE' p1 by (simp_all add: pc T'c t1s' pE')
  qed
  have cT: "\<not> occupied (?T ! c)" using c by (simp add: holed_simps)
  have l1: "c < length ?T" "s < length (?T[c := ?E'])" using c s_lt by (simp_all add: holed_simps)
  have m: "(?T[c := ?E']) ! s = ?E" using sc Ts by simp
  show "contents ?T' = contents ?T"
    unfolding T'_eq
    by (simp add: contents_update [OF l1(2)] contents_update [OF l1(1)] m cT occ occE' nH entry_content_def)
  have "?E \<in> set (?T[c := ?E'])" using m l1(2) by (metis nth_mem)
  have "psl_sum ?T' = psl_sum ?T + (unat (psl ?E) - 1) - unat (psl ?E)"
    unfolding T'_eq
    by (simp add: psl_sum_update(1) [OF l1(2)] psl_sum_update(1) [OF l1(1)] m cT occ occE' nH pE')
  moreover have "unat (psl ?E) \<le> psl_sum ?T"
    using psl_sum_update(2) [of s ?T] s_lt occ Ts by (simp add: holed_simps)
  ultimately show "psl_sum ?T' < psl_sum ?T" using p1 by simp
qed

lemma probe_func_succ:
  assumes "sized ht"
  shows "unat (probe_func hk (pc + 1) (size_w ht)) =
           Suc (unat (probe_func hk pc (size_w ht))) mod length (table ht)"
proof -
  from assms obtain e where e: "e \<le> 30" "length (table ht) = 2 ^ e"
    by (auto simp: sized_def)
  let ?n = "length (table ht)"
  have dvd: "?n dvd 2 ^ LENGTH(32)"
    unfolding e(2) by (rule le_imp_power_dvd) (use e(1) in simp)
  have "unat (pc + 1) = (unat pc + unat (1 :: 32 word)) mod 2 ^ LENGTH(32)"
    by (simp only: unat_word_ariths)
  then have "unat (pc + 1) mod ?n = Suc (unat pc) mod ?n"
    using mod_mod_cancel [OF dvd, of "Suc (unat pc)"] by simp
  then have "(unat hk + unat (pc + 1)) mod ?n = (unat hk + Suc (unat pc)) mod ?n"
    by (metis mod_add_right_eq)
  also have "\<dots> = Suc ((unat hk + unat pc) mod ?n) mod ?n"
    by (simp add: mod_Suc_eq)
  finally show ?thesis
    by (simp only: sized_facts(4) [OF assms])
qed

lemma hole_start:
  assumes ok: "slots_ok t" and n2: "2 \<le> length t" and x: "x < length t" and h: "key h = None"
  shows "hole_ok (t[x := h]) x"
    and "holed (t[x := h]) x = t[x := h]"
proof -
  let ?n = "length t"
  let ?s = "Suc x mod ?n"
  have nh: "\<not> occupied h" using h by (simp add: occupied_def)
  have hh: "h\<lparr>key := None\<rparr> = h" using h by simp
  show T: "holed (t[x := h]) x = t[x := h]"
    using x by (simp add: holed_def hh)
  have sx: "?s \<noteq> x" using n2 x by (rule Suc_mod_neq)
  have px: "pred_slot ?n x \<noteq> x" using n2 x by (rule pred_slot_neq)
  have npos: "0 < ?n" using x by linarith
  have s_lt: "?s < ?n" using npos by (rule mod_less_divisor)
  have ps: "pred_slot ?n ?s = x" using x by (rule pred_slot_succ)
  show "hole_ok (t[x := h]) x"
    unfolding hole_ok_def T
  proof (intro conjI allI impI)
    show "x < length (t[x := h])" using x by simp
    show "2 \<le> length (t[x := h])" using n2 by simp
  next
    fix y assume "y < length (t[x := h])" and o: "occupied (t[x := h] ! y)"
    then have y: "y < ?n" by simp
    have "y \<noteq> x" using o nh x by auto
    then show "slot_ok (length (t[x := h])) y (t[x := h] ! y)"
      using ok y o by (simp add: slots_ok_def)
  next
    fix y assume "y < length (t[x := h])" and ys: "y \<noteq> Suc x mod length (t[x := h])"
    then have y: "y < ?n" and ys': "y \<noteq> ?s" by simp_all
    show "rh_local (t[x := h]) y"
    proof (cases "y = x")
      case True
      then show ?thesis using nh x by (simp add: rh_local_def)
    next
      case False
      have "pred_slot ?n y \<noteq> x" using ys' succ_pred_slot [OF y] by auto
      moreover have "rh_local t y" using ok y by (simp add: slots_ok_def)
      ultimately show ?thesis using False by (simp add: rh_local_def)
    qed
  next
    assume a: "occupied (t[x := h] ! (Suc x mod length (t[x := h]))) \<and>
        2 \<le> unat (psl (t[x := h] ! (Suc x mod length (t[x := h]))))"
    then have o: "occupied (t ! ?s)" and q: "2 \<le> unat (psl (t ! ?s))" using sx by simp_all
    have "rh_local t ?s" using ok s_lt by (simp add: slots_ok_def)
    then have ox: "occupied (t ! x)" and qx: "unat (psl (t ! ?s)) \<le> Suc (unat (psl (t ! x)))"
      using o q ps by (auto simp: rh_local_def unat_eq_0)
    have "rh_local t x" using ok x by (simp add: slots_ok_def)
    then have "occupied (t ! pred_slot ?n x) \<and> unat (psl (t ! x)) \<le> Suc (unat (psl (t ! pred_slot ?n x)))"
      using ox qx q by (auto simp: rh_local_def unat_eq_0)
    then show "occupied (t[x := h] ! pred_slot (length (t[x := h])) x)"
      and "unat (psl (t[x := h] ! (Suc x mod length (t[x := h])))) \<le>
           unat (psl (t[x := h] ! pred_slot (length (t[x := h])) x)) + 2"
      using px sx qx by simp_all
  qed
qed

lemma shift_loop_post:
  assumes "sized ht" "hole_ok (table ht) (unat c)"
    and "nx = probe_func hk pc (size_w ht)"
    and "unat nx = Suc (unat c) mod length (table ht)"
  shows "\<exists>ht'. shift_loop ht c hk pc nx = Some ht' \<and> table_ok ht' \<and>
           size_w ht' = size_w ht \<and> active ht' = active ht \<and> same_config ht ht' \<and>
           contents (table ht') = contents (holed (table ht) (unat c))"
  using assms
proof (induction "psl_sum (holed (table ht) (unat c))" arbitrary: ht c pc nx rule: less_induct)
  case less
  let ?t = "table ht"
  let ?n = "length ?t"
  note sz = \<open>sized ht\<close>
  note h = \<open>hole_ok ?t (unat c)\<close>
  note nx = \<open>unat nx = Suc (unat c) mod ?n\<close>
  show ?case
  proof (cases "key (?t ! unat nx) \<noteq> None \<and> psl (?t ! unat nx) > 0")
    case False
    then have r: "shift_loop ht c hk pc nx = Some (ht\<lparr>table := holed ?t (unat c)\<rparr>)"
      by (subst shift_loop.simps) (auto simp: holed_def)
    have "\<not> (occupied (?t ! (Suc (unat c) mod ?n)) \<and> psl (?t ! (Suc (unat c) mod ?n)) \<noteq> 0)"
      using False by (simp add: occupied_def nx word_gt_0)
    with h have "slots_ok (holed ?t (unat c))" by (rule shift_exit)
    then have "table_ok (ht\<lparr>table := holed ?t (unat c)\<rparr>)"
      using sz by (simp add: table_ok_def sized_def)
    then show ?thesis by (simp add: r same_config_def)
  next
    case True
    let ?E = "?t ! unat nx"
    let ?t1 = "?t[unat c := ?E\<lparr>psl := psl ?E - 1\<rparr>]"
    let ?ht1 = "ht\<lparr>table := ?t1\<rparr>"
    let ?nx1 = "probe_func hk (pc + 1) (size_w ht)"
    have r: "shift_loop ht c hk pc nx = shift_loop ?ht1 nx hk (pc + 1) ?nx1"
      using True by (subst shift_loop.simps) auto
    have occ: "occupied ?E" and pos: "psl ?E \<noteq> 0"
      using True by (simp_all add: occupied_def word_gt_0)
    note st = shift_step [OF h nx occ pos refl]
    have sz1: "sized ?ht1" using sz by (simp add: sized_def)
    have nx1: "unat ?nx1 = Suc (unat nx) mod length (table ?ht1)"
      using probe_func_succ [OF sz, of hk pc] less.prems(3) by simp
    have "\<exists>ht'. shift_loop ?ht1 nx hk (pc + 1) ?nx1 = Some ht' \<and> table_ok ht' \<and>
           size_w ht' = size_w ?ht1 \<and> active ht' = active ?ht1 \<and> same_config ?ht1 ht' \<and>
           contents (table ht') = contents (holed (table ?ht1) (unat nx))"
      by (rule less.hyps) (use st sz1 nx1 in simp_all)
    then show ?thesis using st(2) by (simp add: r same_config_def)
  qed
qed

text \<open>What a removal leaves behind, relative to the table \<open>ht\<close> it started from.\<close>

definition remove_post ::
  "('k, 'v) hashtab \<Rightarrow> HTResult \<times> ('k, 'v) hashtab \<Rightarrow> bool" where
  "remove_post ht r \<longleftrightarrow>
     ht_inv (snd r) \<and> same_config ht (snd r) \<and>
     contents (table (snd r)) \<subseteq># contents (table ht) \<and>
     (fst r = HT_KEY_NOT_FOUND \<and> snd r = ht \<or>
      fst r = HT_SUCCESS \<and> Suc (size (contents (table (snd r)))) \<le> size (contents (table ht))) \<and>
     (size_w (snd r) = size_w ht \<or>
      size_w (snd r) = size_w ht div 2 \<and> 2 < size_w ht \<and>
      flt (float_of_u32 (active ht - 1)) (fmul (float_of_u32 (size_w ht)) (min_load_factor ht)))"

lemma remove_table_update_post:
  assumes ok: "table_ok ht2" and a: "unat (active ht2) = Suc (size (contents (table ht2)))"
  shows "ht_inv (remove_table_update ht2 alloc)"
    and "same_config ht2 (remove_table_update ht2 alloc)"
    and "contents (table (remove_table_update ht2 alloc)) \<subseteq># contents (table ht2)"
    and "size_w (remove_table_update ht2 alloc) = size_w ht2 \<or>
         size_w (remove_table_update ht2 alloc) = size_w ht2 div 2 \<and> 2 < size_w ht2 \<and>
         flt (float_of_u32 (active ht2 - 1)) (fmul (float_of_u32 (size_w ht2)) (min_load_factor ht2))"
proof -
  let ?ht1 = "ht2\<lparr>active := active ht2 - 1\<rparr>"
  let ?r = "remove_table_update ht2 alloc"
  have nz: "active ht2 \<noteq> 0" using a by (metis nat.distinct(1) unat_0)
  have "unat (active ht2 - 1) = size (contents (table ht2))"
    using a by (simp add: unat_minus_one [OF nz])
  then have iv1: "ht_inv ?ht1" using ok by (simp add: ht_inv_def table_ok_def sized_def)
  have sc1: "same_config ht2 ?ht1" by (simp add: same_config_def)
  have "ht_inv ?r \<and> same_config ht2 ?r \<and> contents (table ?r) \<subseteq># contents (table ht2) \<and>
      (size_w ?r = size_w ht2 \<or>
         size_w ?r = size_w ht2 div 2 \<and> 2 < size_w ht2 \<and>
         flt (float_of_u32 (active ht2 - 1)) (fmul (float_of_u32 (size_w ht2)) (min_load_factor ht2)))"
    (is ?goal)
  proof (cases "flt (float_of_u32 (active ?ht1)) (fmul (float_of_u32 (size_w ?ht1)) (min_load_factor ?ht1))
                 \<and> size_w ?ht1 > 2")
    case False
    then have "?r = ?ht1" by (auto simp: remove_table_update_def Let_def)
    then show ?goal using iv1 sc1 by simp
  next
    case True
    then have r: "?r = snd (resize ?ht1 (size_w ht2 div 2) alloc)"
      by (auto simp: remove_table_update_def Let_def)
    from ok obtain e where e: "e \<in> {1..30}" "size_w ht2 = 2 ^ e"
      by (auto simp: table_ok_def sized_def)
    have "2 \<le> e" using e True pow2_word_gt2 [of e] by simp
    then have e1: "e - 1 \<in> {1..30}" using e(1) by auto
    have half: "size_w ht2 div 2 = 2 ^ (e - 1)"
      using e by (simp add: pow2_word_half)
    note p = resize_post [OF iv1 e1, of alloc]
    have "size_w ?r = size_w ht2 \<or> size_w ?r = size_w ht2 div 2"
      using p(5) by (simp add: r half)
    moreover have "same_config ht2 ?r" using p(2) by (simp add: r half same_config_def)
    ultimately show ?goal using p(1) p(3) True by (simp add: r half)
  qed
  then show "ht_inv ?r" and "same_config ht2 ?r"
    and "contents (table ?r) \<subseteq># contents (table ht2)"
    and "size_w ?r = size_w ht2 \<or>
         size_w ?r = size_w ht2 div 2 \<and> 2 < size_w ht2 \<and>
         flt (float_of_u32 (active ht2 - 1)) (fmul (float_of_u32 (size_w ht2)) (min_load_factor ht2))"
    by simp_all
qed

lemma remove_found_post:
  assumes iv: "ht_inv ht" and pc: "pc < size_w ht"
    and x: "x = probe_func hk pc (size_w ht)"
    and occ: "key (table ht ! unat x) \<noteq> None"
  shows "\<exists>ht2. shift_entries_backward
            (ht\<lparr>table := (table ht)[unat x :=
                   (free_entry ht (table ht ! unat x))\<lparr>key := None, val := None\<rparr>]\<rparr>)
            x hk pc = Some ht2 \<and>
          remove_post ht (HT_SUCCESS, remove_table_update ht2 alloc) \<and>
          contents (table (remove_table_update ht2 alloc)) \<subseteq>#
            contents (table ht) - {#entry_content (table ht ! unat x)#}"
proof -
  let ?t = "table ht"
  let ?h = "(free_entry ht (?t ! unat x))\<lparr>key := None, val := None\<rparr>"
  let ?ht1 = "ht\<lparr>table := ?t[unat x := ?h]\<rparr>"
  have ok: "table_ok ht" and a: "unat (active ht) = size (contents ?t)"
    using iv by (simp_all add: ht_inv_def)
  note f = table_ok_facts [OF ok]
  have x_lt: "unat x < length ?t" unfolding x by (rule f(5))
  have sz: "sized ht" using ok by (simp add: table_ok_def)
  have sz1: "sized ?ht1" using sz by (simp add: sized_def)
  have kh: "key ?h = None" by simp
  note hs = hole_start [OF f(6) f(2) x_lt kh]
  have nx: "unat (probe_func hk (pc + 1) (size_w ?ht1)) = Suc (unat x) mod length (table ?ht1)"
    using probe_func_succ [OF sz, of hk pc] by (simp add: x)
  obtain ht2 where s: "shift_loop ?ht1 x hk (pc + 1) (probe_func hk (pc + 1) (size_w ?ht1)) = Some ht2"
    and ok2: "table_ok ht2" and sw: "size_w ht2 = size_w ht" and ac: "active ht2 = active ht"
    and sc: "same_config ht ht2"
    and c2: "contents (table ht2) = contents (?t[unat x := ?h])"
    using shift_loop_post [OF sz1 _ refl nx] hs by (auto simp: same_config_def)
  have oc: "occupied (?t ! unat x)" using occ by (simp add: occupied_def)
  have nh: "\<not> occupied ?h" by (simp add: occupied_def)
  have mem: "entry_content (?t ! unat x) \<in># contents ?t"
    using x_lt oc by (simp add: contents_def)
  have c2': "contents (table ht2) = contents ?t - {#entry_content (?t ! unat x)#}"
    using oc nh by (simp add: c2 contents_update [OF x_lt])
  then have sub: "contents (table ht2) \<subseteq># contents ?t" by simp
  have "size (contents ?t) = size (add_mset (entry_content (?t ! unat x)) (contents (table ht2)))"
    by (simp only: c2' insert_DiffM [OF mem])
  then have sizes: "Suc (size (contents (table ht2))) = size (contents ?t)"
    by simp
  then have a2: "unat (active ht2) = Suc (size (contents (table ht2)))" using a ac by simp
  note u = remove_table_update_post [OF ok2 a2, of alloc]
  have "remove_post ht (HT_SUCCESS, remove_table_update ht2 alloc)"
    unfolding remove_post_def
  proof (intro conjI)
    show "ht_inv (snd (HT_SUCCESS, remove_table_update ht2 alloc))" using u(1) by simp
    show "same_config ht (snd (HT_SUCCESS, remove_table_update ht2 alloc))"
      using sc u(2) by (auto intro: same_config_trans)
    have "contents (table (remove_table_update ht2 alloc)) \<subseteq># contents ?t"
      using u(3) sub by (rule subset_mset.order_trans)
    then show "contents (table (snd (HT_SUCCESS, remove_table_update ht2 alloc))) \<subseteq># contents ?t"
      by simp
    have "size (contents (table (remove_table_update ht2 alloc))) \<le> size (contents (table ht2))"
      using u(3) by (rule size_mset_mono)
    then show "fst (HT_SUCCESS, remove_table_update ht2 alloc) = HT_KEY_NOT_FOUND \<and>
        snd (HT_SUCCESS, remove_table_update ht2 alloc) = ht \<or>
        fst (HT_SUCCESS, remove_table_update ht2 alloc) = HT_SUCCESS \<and>
        Suc (size (contents (table (snd (HT_SUCCESS, remove_table_update ht2 alloc)))))
          \<le> size (contents ?t)"
      using sizes by simp
    show "size_w (snd (HT_SUCCESS, remove_table_update ht2 alloc)) = size_w ht \<or>
      size_w (snd (HT_SUCCESS, remove_table_update ht2 alloc)) = size_w ht div 2 \<and> 2 < size_w ht \<and>
      flt (float_of_u32 (active ht - 1)) (fmul (float_of_u32 (size_w ht)) (min_load_factor ht))"
      using u(4) sw ac sc by (simp add: same_config_def)
  qed
  moreover have "contents (table (remove_table_update ht2 alloc)) \<subseteq>#
      contents ?t - {#entry_content (?t ! unat x)#}"
    using u(3) by (simp only: c2')
  ultimately show ?thesis using s by (auto simp: shift_entries_backward_def)
qed

lemma remove_post_not_found: "ht_inv ht \<Longrightarrow> remove_post ht (HT_KEY_NOT_FOUND, ht)"
  by (simp add: remove_post_def same_config_refl)

lemma remove_loop_post:
  "ht_inv ht \<Longrightarrow> \<exists>r. remove_loop ht hk k alloc pc = Some r \<and> remove_post ht r"
proof (induction ht hk k alloc pc rule: remove_loop.induct)
  case (1 ht hk k alloc pc)
  note iv = \<open>ht_inv ht\<close>
  show ?case
  proof (cases "pc < size_w ht")
    case False
    then have "remove_loop ht hk k alloc pc = Some (HT_KEY_NOT_FOUND, ht)"
      by (subst remove_loop.simps) simp
    then show ?thesis using remove_post_not_found [OF iv] by simp
  next
    case True
    define x where "x = probe_func hk pc (size_w ht)"
    define E where "E = table ht ! unat x"
    show ?thesis
    proof (cases "key E = None")
      case True
      then have "remove_loop ht hk k alloc pc = Some (HT_KEY_NOT_FOUND, ht)"
        using \<open>pc < size_w ht\<close> by (subst remove_loop.simps) (simp add: x_def E_def Let_def)
      then show ?thesis using remove_post_not_found [OF iv] by simp
    next
      case occ: False
      show ?thesis
      proof (cases "hash_key E = hk \<and> cmp_func ht (the (key E)) k = 0")
        case found: True
        from remove_found_post [OF iv True x_def, of alloc] occ
        obtain ht2 where s: "shift_entries_backward
            (ht\<lparr>table := (table ht)[unat x :=
                   (free_entry ht (table ht ! unat x))\<lparr>key := None, val := None\<rparr>]\<rparr>)
            x hk pc = Some ht2"
          and p: "remove_post ht (HT_SUCCESS, remove_table_update ht2 alloc)"
          by (auto simp: E_def)
        have "remove_loop ht hk k alloc pc = Some (HT_SUCCESS, remove_table_update ht2 alloc)"
          using True occ found s by (subst remove_loop.simps) (auto simp: x_def E_def Let_def)
        then show ?thesis using p by simp
      next
        case nf: False
        show ?thesis
        proof (cases "psl E < pc")
          case True
          then have "remove_loop ht hk k alloc pc = Some (HT_KEY_NOT_FOUND, ht)"
            using \<open>pc < size_w ht\<close> occ nf
            by (subst remove_loop.simps) (auto simp: x_def E_def Let_def)
          then show ?thesis using remove_post_not_found [OF iv] by simp
        next
          case False
          have "remove_loop ht hk k alloc pc = remove_loop ht hk k alloc (pc + 1)"
            using True occ nf False by (subst remove_loop.simps) (auto simp: x_def E_def Let_def)
          moreover have "\<exists>r. remove_loop ht hk k alloc (pc + 1) = Some r \<and> remove_post ht r"
            using True x_def E_def occ nf False iv by (rule "1.IH")
          ultimately show ?thesis by simp
        qed
      qed
    qed
  qed
qed

lemma ht_remove_post:
  assumes "ht_inv ht"
  shows "\<exists>r. ht_remove ht k key_len alloc = Some r \<and>
           (fst r = HT_INVALID_ARG \<and> snd r = ht \<and> (k = None \<or> key_len = 0) \<or>
            k \<noteq> None \<and> key_len \<noteq> 0 \<and> remove_post ht r)"
proof (cases k)
  case None
  then show ?thesis by (simp add: ht_remove_def)
next
  case (Some kk)
  show ?thesis
  proof (cases "key_len = 0")
    case True
    then show ?thesis using Some by (simp add: ht_remove_def)
  next
    case False
    then show ?thesis
      using Some remove_loop_post [OF assms, of "hash_func ht kk key_len" kk alloc 0]
      by (auto simp: ht_remove_def remove_entry_def)
  qed
qed

text \<open>What \<open>ht_insert\<close> leaves behind, relative to the table \<open>ht\<close> it started from.\<close>

definition ht_insert_post ::
  "('k, 'v) hashtab \<Rightarrow> 'k option \<Rightarrow> nat \<Rightarrow> 'v option \<Rightarrow> HTResult \<times> ('k, 'v) hashtab \<Rightarrow> bool" where
  "ht_insert_post ht k key_len v r \<longleftrightarrow>
     ht_inv (snd r) \<and> same_config ht (snd r) \<and>
     contents (table (snd r)) \<subseteq>#
       add_mset (hash_func ht (the k) key_len, k, v) (contents (table ht)) \<and>
     (fst r = HT_SUCCESS \<longrightarrow>
        k \<noteq> None \<and> key_len \<noteq> 0 \<and>
        (hash_func ht (the k) key_len, k, v) \<in># contents (table (snd r))) \<and>
     (fst r \<in> {HT_INVALID_ARG, HT_KEY_EXISTS, HT_MEM_ERROR} \<longrightarrow> snd r = ht) \<and>
     (size_w (snd r) = size_w ht \<or>
      size_w (snd r) = push_bit 1 (size_w ht) \<and>
      fgt (float_of_u32 (active ht + 1)) (fmul (float_of_u32 (size_w ht)) (load_factor ht)))"

lemma insert_entry_in_table:
  assumes iv: "ht_inv ht0" and sc: "same_config ht ht0"
    and sub: "contents (table ht0) \<subseteq># contents (table ht)"
    and sz: "size_w ht0 = size_w ht \<or>
      size_w ht0 = push_bit 1 (size_w ht) \<and>
      fgt (float_of_u32 (active ht + 1)) (fmul (float_of_u32 (size_w ht)) (load_factor ht))"
    and len: "key_len \<noteq> 0"
  shows "ht_insert_post ht (Some kk) key_len v (insert_entry ht0 (hash_func ht kk key_len) (Some kk) v)"
proof -
  let ?N = "\<lparr>hash_key = hash_func ht kk key_len, psl = 0, key = Some kk, val = v\<rparr>"
  let ?r = "insert_entry ht0 (hash_func ht kk key_len) (Some kk) v"
  have ok: "table_ok ht0" using iv by (simp add: ht_inv_def)
  have p: "insert_post ht0 ?N ?r" by (rule insert_entry_post [OF ok]) simp
  have c: "entry_content ?N = (hash_func ht kk key_len, Some kk, v)" by (simp add: entry_content_def)
  have "contents (table (snd ?r)) \<subseteq># add_mset (entry_content ?N) (contents (table ht0))"
    using p by (rule insert_post_sub)
  moreover have "add_mset (entry_content ?N) (contents (table ht0))
      \<subseteq># add_mset (entry_content ?N) (contents (table ht))"
    using sub by simp
  ultimately have s: "contents (table (snd ?r)) \<subseteq># add_mset (entry_content ?N) (contents (table ht))"
    by (rule subset_mset.order_trans)
  have "fst ?r = HT_SUCCESS \<or> fst ?r = HT_FAILURE" using p by (auto simp: insert_post_def)
  moreover have "fst ?r = HT_SUCCESS \<Longrightarrow> entry_content ?N \<in># contents (table (snd ?r))"
    using p by (auto simp: insert_post_def)
  moreover have "same_config ht (snd ?r)"
    using p sc by (auto simp: insert_post_def intro: same_config_trans)
  moreover have "size_w (snd ?r) = size_w ht0" using p by (simp add: insert_post_def)
  ultimately show ?thesis
    using insert_post_inv [OF iv p] s sz len
    unfolding ht_insert_post_def c by auto
qed

lemma ht_insert_post:
  assumes iv: "ht_inv ht"
  shows "ht_insert_post ht k key_len v (ht_insert ht k key_len v alloc)"
proof -
  have triv: "\<And>c. c \<in> {HT_INVALID_ARG, HT_KEY_EXISTS, HT_MEM_ERROR, HT_FAILURE} \<Longrightarrow>
      ht_insert_post ht k key_len v (c, ht)"
    using iv by (auto simp: ht_insert_post_def same_config_refl)
  show ?thesis
  proof (cases k)
    case None
    then show ?thesis using triv [of HT_INVALID_ARG] by (simp add: ht_insert_def)
  next
    case (Some kk)
    show ?thesis
    proof (cases "key_len = 0 \<or> ht_search ht k key_len \<noteq> None")
      case True
      then show ?thesis
        using Some triv [of HT_INVALID_ARG] triv [of HT_KEY_EXISTS]
        by (auto simp: ht_insert_def)
    next
      case False
      then have len: "key_len \<noteq> 0" and ns: "ht_search ht (Some kk) key_len = None"
        using Some by simp_all
      show ?thesis
      proof (cases "fgt (float_of_u32 (active ht + 1)) (fmul (float_of_u32 (size_w ht)) (load_factor ht))")
        case nogrow: False
        have "ht_insert ht k key_len v alloc = insert_entry ht (hash_func ht kk key_len) (Some kk) v"
          using Some len ns nogrow by (simp add: ht_insert_def)
        moreover have "ht_insert_post ht (Some kk) key_len v
            (insert_entry ht (hash_func ht kk key_len) (Some kk) v)"
          by (rule insert_entry_in_table) (use iv len in \<open>simp_all add: same_config_refl\<close>)
        ultimately show ?thesis using Some by simp
      next
        case grow: True
        define new where "new = push_bit 1 (size_w ht)"
        have ins: "\<And>alloc. ht_insert ht k key_len v alloc =
            (if validate_size (size_w ht) new \<noteq> HT_SUCCESS
             then (validate_size (size_w ht) new, ht)
             else (case resize ht new alloc of
                     (result, ht') \<Rightarrow>
                       if result \<noteq> HT_SUCCESS then (result, ht')
                       else insert_entry ht' (hash_func ht' kk key_len) (Some kk) v))"
          using Some len ns grow by (simp add: ht_insert_def new_def)
        show ?thesis
        proof (cases "validate_size (size_w ht) new = HT_SUCCESS")
          case False
          then have "validate_size (size_w ht) new = HT_FAILURE"
            by (simp add: validate_size_def split: if_splits)
          then have "ht_insert ht k key_len v alloc = (HT_FAILURE, ht)"
            by (simp add: ins)
          then show ?thesis using triv [of HT_FAILURE] by simp
        next
          case valid: True
          from iv obtain e where e: "e \<in> {1..30}" "size_w ht = 2 ^ e"
            by (auto simp: ht_inv_def table_ok_def sized_def)
          have e30: "e \<le> 30" using e(1) by simp
          note g = validate_size_grow [OF e30 valid [unfolded new_def e(2)]]
          have new2: "new = 2 ^ Suc e" unfolding new_def e(2) by (rule g(2))
          have se: "Suc e \<in> {1..30}" using g(1) by simp
          note p = resize_post [OF iv se, of alloc, folded new2]
          show ?thesis
          proof (cases alloc)
            case False
            then have "ht_insert ht k key_len v alloc = (HT_MEM_ERROR, ht)"
              using valid p(4) by (simp add: ins)
            then show ?thesis using triv [of HT_MEM_ERROR] by simp
          next
            case True
            define ht1 where "ht1 = snd (resize ht new alloc)"
            note q = p [folded ht1_def]
            have r: "resize ht new alloc = (HT_SUCCESS, ht1)" using q(4) True by simp
            have hf: "hash_func ht1 = hash_func ht" using q(2) by (simp add: same_config_def)
            have "ht_insert ht k key_len v alloc =
                insert_entry ht1 (hash_func ht kk key_len) (Some kk) v"
              using valid r hf by (simp add: ins)
            moreover have "ht_insert_post ht (Some kk) key_len v
                (insert_entry ht1 (hash_func ht kk key_len) (Some kk) v)"
              using q(1) q(2) q(3) _ len
            proof (rule insert_entry_in_table)
              show "size_w ht1 = size_w ht \<or> size_w ht1 = push_bit 1 (size_w ht) \<and>
                  fgt (float_of_u32 (active ht + 1)) (fmul (float_of_u32 (size_w ht)) (load_factor ht))"
                using q(5) True grow by (simp only: new_def) simp
            qed
            ultimately show ?thesis using Some by simp
          qed
        qed
      qed
    qed
  qed
qed

lemma search_loop_result:
  "sized ht \<Longrightarrow>
   search_loop ht hk k i = None \<or>
   (\<exists>x < length (table ht). matches ht hk k (table ht ! x) \<and>
      search_loop ht hk k i = val (table ht ! x))"
proof (induction ht hk k i rule: search_loop.induct)
  case (1 ht hk k i)
  define x where "x = probe_func hk i (size_w ht)"
  define E where "E = table ht ! unat x"
  have x_lt: "unat x < length (table ht)" unfolding x_def by (rule sized_facts(5) [OF "1.prems"])
  show ?case
  proof (cases "i < size_w ht \<and> key E \<noteq> None \<and>
      \<not> (hash_key E = hk \<and> cmp_func ht (the (key E)) k = 0) \<and> \<not> psl E < i")
    case True
    then have "search_loop ht hk k i = search_loop ht hk k (i + 1)"
      by (subst search_loop.simps) (auto simp: x_def E_def Let_def)
    moreover have "search_loop ht hk k (i + 1) = None \<or>
      (\<exists>x < length (table ht). matches ht hk k (table ht ! x) \<and>
         search_loop ht hk k (i + 1) = val (table ht ! x))"
      using True "1.prems" by (intro "1.IH" [OF _ x_def E_def]) auto
    ultimately show ?thesis by simp
  next
    case False
    then have "search_loop ht hk k i = None \<or>
      (matches ht hk k E \<and> search_loop ht hk k i = val E)"
      by (subst (1 2) search_loop.simps) (auto simp: x_def E_def Let_def matches_def)
    then show ?thesis using x_lt by (auto simp: E_def)
  qed
qed

lemma rh_path:
  assumes ok: "slots_ok t" and x: "x < length t" and occ: "occupied (t ! x)"
    and j: "j \<le> unat (psl (t ! x))"
  shows "occupied (t ! ((unat (hash_key (t ! x)) + j) mod length t)) \<and>
         j \<le> unat (psl (t ! ((unat (hash_key (t ! x)) + j) mod length t)))"
  using j
proof (induction j rule: inc_induct)
  case base
  have "slot_ok (length t) x (t ! x)" using ok x occ by (simp add: slots_ok_def)
  then show ?case using occ by (simp add: slot_ok_def)
next
  case (step m)
  let ?n = "length t"
  let ?h = "unat (hash_key (t ! x))"
  let ?y = "(?h + Suc m) mod ?n"
  have npos: "0 < ?n" using x by linarith
  have y_lt: "?y < ?n" using npos by (rule mod_less_divisor)
  have o: "occupied (t ! ?y)" and q: "Suc m \<le> unat (psl (t ! ?y))" using step.IH by simp_all
  have "rh_local t ?y" using ok y_lt by (simp add: slots_ok_def)
  moreover have "psl (t ! ?y) \<noteq> 0" using q by (auto simp: unat_eq_0)
  ultimately have r: "occupied (t ! pred_slot ?n ?y)"
      "unat (psl (t ! ?y)) \<le> Suc (unat (psl (t ! pred_slot ?n ?y)))"
    using o by (simp_all add: rh_local_def)
  have "(?h + m) mod ?n < ?n" using npos by (rule mod_less_divisor)
  then have "pred_slot ?n (Suc ((?h + m) mod ?n) mod ?n) = (?h + m) mod ?n"
    by (rule pred_slot_succ)
  then have "pred_slot ?n ?y = (?h + m) mod ?n" by (simp add: mod_Suc_eq)
  then show ?case using r q by simp
qed

lemma search_loop_finds:
  "table_ok ht \<Longrightarrow> x < length (table ht) \<Longrightarrow> matches ht hk k (table ht ! x) \<Longrightarrow>
   unat i \<le> unat (psl (table ht ! x)) \<Longrightarrow>
   \<exists>y < length (table ht). matches ht hk k (table ht ! y) \<and>
      search_loop ht hk k i = val (table ht ! y)"
proof (induction ht hk k i rule: search_loop.induct)
  case (1 ht hk k i)
  let ?t = "table ht"
  let ?n = "length ?t"
  note ok = \<open>table_ok ht\<close>
  note f = table_ok_facts [OF ok]
  note x = \<open>x < ?n\<close>
  note m = \<open>matches ht hk k (?t ! x)\<close>
  note le = \<open>unat i \<le> unat (psl (?t ! x))\<close>
  have occ: "occupied (?t ! x)" and hx: "hash_key (?t ! x) = hk"
    using m by (simp_all add: matches_def occupied_def)
  have sx: "slot_ok ?n x (?t ! x)" using f(6) x occ by (simp add: slots_ok_def)
  then have "unat i < ?n" using le by (simp add: slot_ok_def)
  then have i_lt: "i < size_w ht" using f(1) by (simp add: word_less_nat_alt)
  have i_suc: "unat (i + 1) = Suc (unat i)" using i_lt by (rule word_less_unat_Suc)
  define z where "z = probe_func hk i (size_w ht)"
  define E where "E = ?t ! unat z"
  have z_eq: "unat z = (unat hk + unat i) mod ?n" unfolding z_def by (rule f(4))
  have z_lt: "unat z < ?n" unfolding z_def by (rule f(5))
  have p: "occupied E \<and> unat i \<le> unat (psl E)"
    using rh_path [OF f(6) x occ le] by (simp add: E_def z_eq hx)
  show ?case
  proof (cases "hash_key E = hk \<and> cmp_func ht (the (key E)) k = 0")
    case True
    then have "search_loop ht hk k i = val E"
      using i_lt p by (subst search_loop.simps) (auto simp: z_def E_def Let_def occupied_def)
    moreover have "matches ht hk k E" using True p by (simp add: matches_def occupied_def)
    ultimately show ?thesis using z_lt by (auto simp: E_def)
  next
    case False
    have np: "\<not> psl E < i" using p by (simp add: word_less_nat_alt)
    have kE: "key E \<noteq> None" using p by (simp add: occupied_def)
    have r: "search_loop ht hk k i = search_loop ht hk k (i + 1)"
      using i_lt kE False np by (subst search_loop.simps) (auto simp: z_def E_def Let_def)
    have "unat i \<noteq> unat (psl (?t ! x))"
    proof
      assume "unat i = unat (psl (?t ! x))"
      then have "unat z = x" using sx by (simp add: z_eq slot_ok_def hx)
      then show False using m False by (simp add: E_def matches_def)
    qed
    then have le': "unat (i + 1) \<le> unat (psl (?t ! x))" using le by (simp add: i_suc)
    have "\<exists>y < ?n. matches ht hk k (?t ! y) \<and> search_loop ht hk k (i + 1) = val (?t ! y)"
      using i_lt z_def E_def kE False np ok x m le' by (rule "1.IH")
    then show ?thesis by (simp add: r)
  qed
qed

lemma ht_search_absent:
  assumes "sized ht" "\<forall>x < length (table ht). \<not> matches ht (hash_func ht k key_len) k (table ht ! x)"
  shows "ht_search ht (Some k) key_len = None"
  using search_loop_result [OF assms(1), of "hash_func ht k key_len" k 0] assms(2)
  by (auto simp: ht_search_def)

lemma ht_search_present:
  assumes "table_ok ht" "key_len \<noteq> 0" "x < length (table ht)"
    "matches ht (hash_func ht k key_len) k (table ht ! x)"
  shows "\<exists>y < length (table ht). matches ht (hash_func ht k key_len) k (table ht ! y) \<and>
           ht_search ht (Some k) key_len = val (table ht ! y)"
  using search_loop_finds [OF assms(1) assms(3) assms(4), of 0] assms(2)
  by (simp add: ht_search_def)

lemma insert_entry_exact:
  assumes iv: "ht_inv ht" and k: "k \<noteq> None"
    and room: "size (contents (table ht)) < length (table ht)"
  shows "fst (insert_entry ht hk k v) = HT_SUCCESS"
    and "contents (table (snd (insert_entry ht hk k v))) = add_mset (hk, k, v) (contents (table ht))"
    and "ht_inv (snd (insert_entry ht hk k v))"
    and "size_w (snd (insert_entry ht hk k v)) = size_w ht"
    and "same_config ht (snd (insert_entry ht hk k v))"
proof -
  have ok: "table_ok ht" using iv by (simp add: ht_inv_def)
  then have sz: "sized ht" by (simp add: table_ok_def)
  note p = insert_entry_post [OF ok k, of hk v]
  show s: "fst (insert_entry ht hk k v) = HT_SUCCESS"
    using sz k room by (rule insert_entry_success)
  show "contents (table (snd (insert_entry ht hk k v))) = add_mset (hk, k, v) (contents (table ht))"
    using p s by (simp add: insert_post_def entry_content_def)
  show "ht_inv (snd (insert_entry ht hk k v))" using iv p by (rule insert_post_inv)
  show "size_w (snd (insert_entry ht hk k v)) = size_w ht" using p by (simp add: insert_post_def)
  show "same_config ht (snd (insert_entry ht hk k v))" using p by (simp add: insert_post_def)
qed

lemma foldl_rehash_exact:
  "ht_inv ht \<Longrightarrow> \<forall>e \<in> set es. occupied e \<Longrightarrow>
   size (contents (table ht)) + length es \<le> length (table ht) \<Longrightarrow>
   contents (table (foldl rehash_step ht es)) =
     contents (table ht) + image_mset entry_content (mset es)"
proof (induction es arbitrary: ht)
  case Nil
  then show ?case by simp
next
  case (Cons e es)
  have k: "key e \<noteq> None" using Cons.prems(2) by (simp add: occupied_def)
  have room: "size (contents (table ht)) < length (table ht)" using Cons.prems(3) by simp
  note x = insert_entry_exact [OF Cons.prems(1) k room, of "hash_key e" "val e"]
  let ?h = "rehash_step ht e"
  have c: "contents (table ?h) = add_mset (entry_content e) (contents (table ht))"
    using x(2) by (simp add: rehash_step_def entry_content_def)
  have iv: "ht_inv ?h" using x(3) by (simp add: rehash_step_def)
  have len: "length (table ?h) = length (table ht)"
    using x(4) table_ok_facts(1) [of ?h] table_ok_facts(1) [of ht] iv Cons.prems(1)
    by (simp add: rehash_step_def ht_inv_def)
  have "contents (table (foldl rehash_step ?h es)) =
      contents (table ?h) + image_mset entry_content (mset es)"
    by (rule Cons.IH) (use iv Cons.prems c len in simp_all)
  then show ?case by (simp add: c)
qed

lemma resize_exact:
  assumes iv: "ht_inv ht" and e: "e \<in> {1..30}"
    and fits: "size (contents (table ht)) \<le> 2 ^ e"
  shows "contents (table (snd (resize ht (2 ^ e) True))) = contents (table ht)"
proof -
  let ?h0 = "ht\<lparr>table := replicate (unat ((2 :: 32 word) ^ e)) zero_entry, size_w := 2 ^ e, active := 0\<rparr>"
  let ?es = "filter occupied (table ht)"
  have ok: "table_ok ht" using iv by (simp add: ht_inv_def)
  have len: "unat (size_w ht) = length (table ht)" by (rule table_ok_facts(1) [OF ok])
  have re: "rehash_entries ?h0 (table ht) (size_w ht) = foldl rehash_step ?h0 ?es"
    unfolding rehash_entries_def using rehash_loop_foldl [OF len, of 0 ?h0] by simp
  have v: "validate_size (size_w ht) (2 ^ e) = HT_SUCCESS"
    using e by (simp add: validate_size_pow2)
  have res: "snd (resize ht (2 ^ e) True) = foldl rehash_step ?h0 ?es"
    using v re by (simp add: resize_def Let_def)
  have iv0: "ht_inv ?h0" using e by (rule empty_table_inv)
  have e32: "e < 32" using e by simp
  have "length ?es = size (contents (table ht))"
    by (simp add: contents_def flip: size_mset)
  then have "size (contents (table ?h0)) + length ?es \<le> length (table ?h0)"
    using fits by (simp add: contents_replicate_zero pow2_word_unat [OF e32])
  then have "contents (table (foldl rehash_step ?h0 ?es)) =
      contents (table ?h0) + image_mset entry_content (mset ?es)"
    using iv0 by (intro foldl_rehash_exact) simp_all
  moreover have "contents (table ?h0) = {#}" by (simp add: contents_replicate_zero)
  moreover have "image_mset entry_content (mset ?es) = contents (table ht)"
    by (simp add: contents_def)
  ultimately show ?thesis by (simp only: res) simp
qed

lemma no_grow_room:
  assumes iv: "ht_inv ht" and lt: "active ht < size_w ht"
  shows "size (contents (table ht)) < length (table ht)"
proof -
  have ok: "table_ok ht" and a: "unat (active ht) = size (contents (table ht))"
    using iv by (simp_all add: ht_inv_def)
  have "unat (active ht) < unat (size_w ht)" using lt by (simp add: word_less_nat_alt)
  then show ?thesis using a table_ok_facts(1) [OF ok] by simp
qed

section \<open>Rounding is monotone\<close>

text \<open>
  \<open>p2 e\<close> is the real number \<open>2 ^ e\<close> for an integer exponent. The float comparisons are the
  comparisons of the values; \<open>round32\<close> rounds a smaller exact value to a float that is not
  above the float of a larger one.
\<close>

lemma rne_shift_cases:
  obtains q r where "m = q * 2 ^ d + r" "0 \<le> r" "r < 2 ^ d"
    "rne_shift m d = (if 2 * r < 2 ^ d then q else if 2 ^ d < 2 * r then q + 1
                      else if even q then q else q + 1)"
proof -
  let ?q = "m div 2 ^ d" and ?r = "m mod 2 ^ d"
  have "m = ?q * 2 ^ d + ?r" by (simp add: div_mult_mod_eq)
  moreover have "0 \<le> ?r" "?r < 2 ^ d" by simp_all
  moreover have "rne_shift m d = (if 2 * ?r < 2 ^ d then ?q else if 2 ^ d < 2 * ?r then ?q + 1
                      else if even ?q then ?q else ?q + 1)"
    by (simp add: rne_shift_def Let_def)
  ultimately show ?thesis by (rule that)
qed

lemma rne_shift_exact: "rne_shift (k * 2 ^ d) d = k"
  by (simp add: rne_shift_def Let_def)

lemma rne_shift_mono:
  assumes "m \<le> m'"
  shows "rne_shift m d \<le> rne_shift m' d"
proof -
  obtain q r where a: "m = q * 2 ^ d + r" "0 \<le> r" "r < 2 ^ d"
    "rne_shift m d = (if 2 * r < 2 ^ d then q else if 2 ^ d < 2 * r then q + 1
                      else if even q then q else q + 1)"
    by (rule rne_shift_cases)
  obtain q' r' where b: "m' = q' * 2 ^ d + r'" "0 \<le> r'" "r' < 2 ^ d"
    "rne_shift m' d = (if 2 * r' < 2 ^ d then q' else if 2 ^ d < 2 * r' then q' + 1
                      else if even q' then q' else q' + 1)"
    by (rule rne_shift_cases)
  define P :: int where "P = 2 ^ d"
  have P: "0 < P" by (simp add: P_def)
  have qq: "q \<le> q'"
  proof (rule ccontr)
    assume "\<not> q \<le> q'"
    then have "q' + 1 \<le> q" by simp
    then have "(q' + 1) * P \<le> q * P" using P by (simp add: mult_right_mono)
    then have "m' < m" using a(1,2) b(1,3) by (simp add: P_def algebra_simps)
    then show False using assms by simp
  qed
  show ?thesis
  proof (cases "q = q'")
    case True
    then have "r \<le> r'" using assms a(1) b(1) by simp
    then show ?thesis using True a(4) b(4) by auto
  next
    case False
    then have "q + 1 \<le> q'" using qq by simp
    moreover have "rne_shift m d \<le> q + 1" using a(4) by auto
    moreover have "q' \<le> rne_shift m' d" using b(4) by auto
    ultimately show ?thesis by linarith
  qed
qed

lemma rne_shift_lower: "k * 2 ^ d \<le> m \<Longrightarrow> k \<le> rne_shift m d"
  using rne_shift_mono [of "k * 2 ^ d" m d] by (simp add: rne_shift_exact)

lemma rne_shift_upper: "m \<le> k * 2 ^ d \<Longrightarrow> rne_shift m d \<le> k"
  using rne_shift_mono [of m "k * 2 ^ d" d] by (simp add: rne_shift_exact)

lemma rne_shift_scale: "rne_shift (m * 2 ^ j) (d + j) = rne_shift m d"
proof -
  have dv: "m * 2 ^ j div 2 ^ (d + j) = m div 2 ^ d"
    by (simp add: power_add mult.commute [of "2 ^ d"])
  have md: "m * 2 ^ j mod 2 ^ (d + j) = (m mod 2 ^ d) * 2 ^ j"
    by (simp add: power_add mult.commute [of "2 ^ d"] mult_mod_left)
  have p: "(0::int) < 2 ^ j" by simp
  have c1: "2 * ((m mod 2 ^ d) * 2 ^ j) < (2::int) ^ (d + j) \<longleftrightarrow> 2 * (m mod 2 ^ d) < 2 ^ d"
    using p by (simp add: power_add)
  have c2: "(2::int) ^ (d + j) < 2 * ((m mod 2 ^ d) * 2 ^ j) \<longleftrightarrow> 2 ^ d < 2 * (m mod 2 ^ d)"
    using p by (simp add: power_add)
  show ?thesis
    unfolding rne_shift_def Let_def dv md c1 c2 ..
qed

definition p2 :: "int \<Rightarrow> real" where
  "p2 e = 2 powr real_of_int e"

lemma p2_pos: "0 < p2 e" by (simp add: p2_def)

lemma p2_add: "p2 (a + b) = p2 a * p2 b" by (simp add: p2_def powr_add)

lemma p2_nat: "p2 (int n) = 2 ^ n" by (simp add: p2_def powr_realpow)

lemma p2_nat': "0 \<le> e \<Longrightarrow> p2 e = 2 ^ nat e"
  using p2_nat [of "nat e"] by simp

lemma flt_Finite_iff:
  "flt (Finite a x) (Finite b y) \<longleftrightarrow> real_of_int a * p2 x < real_of_int b * p2 y"
proof -
  define z where "z = min x y"
  have x: "x = z + int (nat (x - y))" and y: "y = z + int (nat (y - x))" by (simp_all add: z_def)
  have "p2 x = p2 (z + int (nat (x - y)))" by (rule arg_cong [OF x])
  then have px: "p2 x = p2 z * 2 ^ nat (x - y)" by (simp only: p2_add p2_nat)
  have "p2 y = p2 (z + int (nat (y - x)))" by (rule arg_cong [OF y])
  then have py: "p2 y = p2 z * 2 ^ nat (y - x)" by (simp only: p2_add p2_nat)
  have "real_of_int a * p2 x < real_of_int b * p2 y \<longleftrightarrow>
      real_of_int (a * 2 ^ nat (x - y)) * p2 z < real_of_int (b * 2 ^ nat (y - x)) * p2 z"
    unfolding px py by (simp add: mult_ac)
  also have "\<dots> \<longleftrightarrow> real_of_int (a * 2 ^ nat (x - y)) < real_of_int (b * 2 ^ nat (y - x))"
    using p2_pos [of z] by (simp only: mult_less_cancel_right_pos)
  also have "\<dots> \<longleftrightarrow> a * 2 ^ nat (x - y) < b * 2 ^ nat (y - x)" by (simp only: of_int_less_iff)
  finally show ?thesis by simp
qed

lemma fle_Finite_iff:
  "fle (Finite a x) (Finite b y) \<longleftrightarrow> real_of_int a * p2 x \<le> real_of_int b * p2 y"
proof -
  define z where "z = min x y"
  have x: "x = z + int (nat (x - y))" and y: "y = z + int (nat (y - x))" by (simp_all add: z_def)
  have "p2 x = p2 (z + int (nat (x - y)))" by (rule arg_cong [OF x])
  then have px: "p2 x = p2 z * 2 ^ nat (x - y)" by (simp only: p2_add p2_nat)
  have "p2 y = p2 (z + int (nat (y - x)))" by (rule arg_cong [OF y])
  then have py: "p2 y = p2 z * 2 ^ nat (y - x)" by (simp only: p2_add p2_nat)
  have "real_of_int a * p2 x \<le> real_of_int b * p2 y \<longleftrightarrow>
      real_of_int (a * 2 ^ nat (x - y)) * p2 z \<le> real_of_int (b * 2 ^ nat (y - x)) * p2 z"
    unfolding px py by (simp add: mult_ac)
  also have "\<dots> \<longleftrightarrow> real_of_int (a * 2 ^ nat (x - y)) \<le> real_of_int (b * 2 ^ nat (y - x))"
    using p2_pos [of z] by (simp only: mult_le_cancel_right_pos)
  also have "\<dots> \<longleftrightarrow> a * 2 ^ nat (x - y) \<le> b * 2 ^ nat (y - x)" by (simp only: of_int_le_iff)
  finally show ?thesis by simp
qed

definition ulp_shift :: "int \<Rightarrow> int \<Rightarrow> nat" where
  "ulp_shift e0 M = nat (max (bitlen M - 24) (- 149 - e0))"

definition aligned :: "int \<Rightarrow> int \<Rightarrow> int" where
  "aligned e0 M = rne_shift M (ulp_shift e0 M) * 2 ^ ulp_shift e0 M"

lemma ulp_shift_ge:
  "bitlen M - 24 \<le> int (ulp_shift e0 M)" "- 149 - e0 \<le> int (ulp_shift e0 M)"
proof -
  have "max (bitlen M - 24) (- 149 - e0) \<le> int (ulp_shift e0 M)"
    unfolding ulp_shift_def by linarith
  then show "bitlen M - 24 \<le> int (ulp_shift e0 M)" "- 149 - e0 \<le> int (ulp_shift e0 M)"
    by simp_all
qed

lemma bitlen_mono: "a \<le> b \<Longrightarrow> bitlen a \<le> bitlen b"
  by (simp add: bitlen_def floorlog_mono)

lemma aligned_mono:
  assumes e0: "e0 \<le> - 149" and M: "0 \<le> M" "M \<le> M'"
  shows "aligned e0 M \<le> aligned e0 M'"
proof -
  define D where "D = ulp_shift e0 M"
  define D' where "D' = ulp_shift e0 M'"
  have DD: "D \<le> D'"
    using bitlen_mono [OF M(2)] by (simp add: D_def D'_def ulp_shift_def)
  show ?thesis
  proof (cases "D = D'")
    case True
    have "rne_shift M D \<le> rne_shift M' D" using M(2) by (rule rne_shift_mono)
    then have "rne_shift M D * 2 ^ D \<le> rne_shift M' D * 2 ^ D" by simp
    then show ?thesis using True by (simp add: aligned_def D_def D'_def)
  next
    case False
    then have lt: "D < D'" using DD by simp
    have c: "0 \<le> - 149 - e0" using e0 by simp
    have D'b: "int D' = bitlen M' - 24"
    proof (rule ccontr)
      assume n: "int D' \<noteq> bitlen M' - 24"
      have "0 \<le> max (bitlen M' - 24) (- 149 - e0)" using c by (simp add: le_max_iff_disj)
      then have "int D' = max (bitlen M' - 24) (- 149 - e0)"
        by (simp add: D'_def ulp_shift_def)
      then have "int D' = - 149 - e0" using n by (simp add: max_def split: if_splits)
      moreover have "- 149 - e0 \<le> int D" unfolding D_def by (rule ulp_shift_ge)
      ultimately show False using lt by simp
    qed
    have Db: "bitlen M - 24 \<le> int D" unfolding D_def by (rule ulp_shift_ge)
    have bl: "bitlen M < bitlen M'" using D'b Db lt by linarith
    have M'pos: "0 < M'"
    proof (rule ccontr)
      assume "\<not> 0 < M'"
      then have "bitlen M' = 0" by (simp add: bitlen_eq_zero_iff)
      then show False using bl bitlen_nonneg [of M] by simp
    qed
    define k where "k = nat (bitlen M' - 1)"
    have kD': "k = D' + 23" using D'b by (simp add: k_def)
    have lo: "2 ^ k \<le> M'" using bitlen_bounds [OF M'pos] by (simp add: k_def)
    have "bitlen M \<le> int k" using bl by (simp add: k_def)
    then have "M < 2 ^ nat (int k)" by (simp only: bitlen_le_iff_power)
    then have hi: "M \<le> 2 ^ k" by simp
    have kD: "k = (k - D) + D" using lt kD' by simp
    have "(2::int) ^ k = 2 ^ (k - D) * 2 ^ D" by (subst kD) (simp only: power_add)
    with hi have "M \<le> 2 ^ (k - D) * 2 ^ D" by simp
    then have "rne_shift M D \<le> 2 ^ (k - D)" by (rule rne_shift_upper)
    then have "rne_shift M D * 2 ^ D \<le> 2 ^ (k - D) * 2 ^ D" by simp
    then have u: "aligned e0 M \<le> 2 ^ k"
      using \<open>(2::int) ^ k = 2 ^ (k - D) * 2 ^ D\<close> by (simp add: aligned_def D_def)
    have k': "k = 23 + D'" using kD' by simp
    have e: "(2::int) ^ k = 2 ^ 23 * 2 ^ D'" by (subst k') (simp only: power_add)
    with lo have "2 ^ 23 * 2 ^ D' \<le> M'" by simp
    then have "2 ^ 23 \<le> rne_shift M' D'" by (rule rne_shift_lower)
    then have "2 ^ 23 * 2 ^ D' \<le> rne_shift M' D' * 2 ^ D'" by simp
    then have "2 ^ k \<le> aligned e0 M'" using e by (simp add: aligned_def D'_def)
    with u show ?thesis by linarith
  qed
qed

lemma rne_shift_nonneg: "0 \<le> m \<Longrightarrow> 0 \<le> rne_shift m d"
  using rne_shift_lower [of 0 d m] by simp

lemma rne_shift_nonpos: "m \<le> 0 \<Longrightarrow> rne_shift m d \<le> 0"
  using rne_shift_upper [of m 0 d] by simp

text \<open>The result of \<open>round32\<close> in terms of the value aligned to a common exponent.\<close>

lemma round32_aligned:
  assumes m: "0 \<le> m" and e0: "e0 \<le> - 149" "e0 \<le> e"
  defines "V \<equiv> aligned e0 (m * 2 ^ nat (e - e0))"
  shows "\<exists>q g. 0 \<le> q \<and> real_of_int q * p2 g = real_of_int V * p2 e0 \<and>
           round32 m e = (if 2 ^ 128 \<le> real_of_int V * p2 e0 then PInf else Finite q g)"
proof -
  define j where "j = nat (e - e0)"
  define M where "M = m * 2 ^ j"
  define d where "d = nat (max (bitlen \<bar>m\<bar> - 24) (- 149 - e))"
  define q where "q = rne_shift m d"
  define D where "D = ulp_shift e0 M"
  have e: "e = e0 + int j" using e0(2) by (simp add: j_def)
  have q0: "0 \<le> q" unfolding q_def using m by (rule rne_shift_nonneg)
  have V: "V = rne_shift M D * 2 ^ D" by (simp add: V_def aligned_def M_def j_def D_def)
  have dge: "- 149 - e \<le> int d" unfolding d_def by linarith
  have val: "q * 2 ^ (d + j) = V"
  proof (cases "m = 0")
    case True
    then show ?thesis by (simp add: q_def V M_def rne_shift_def)
  next
    case False
    then have mp: "0 < m" using m by simp
    define r where "r = max (bitlen m - 24) (- 149 - e)"
    have bM: "bitlen M = bitlen m + int j" unfolding M_def using mp by (rule bitlen_pow2)
    have "max (bitlen M - 24) (- 149 - e0) = r + int j" by (simp add: bM r_def e max_def)
    then have D: "D = nat (r + int j)" by (simp add: D_def ulp_shift_def)
    have dr: "d = nat r" using mp by (simp add: d_def r_def)
    show ?thesis
    proof (cases "0 \<le> r")
      case True
      then have "D = d + j" using D dr by (simp add: nat_add_distrib)
      then have "rne_shift M D = q" by (simp add: M_def q_def rne_shift_scale)
      then show ?thesis using V \<open>D = d + j\<close> by simp
    next
      case False
      then have d0: "d = 0" using dr by simp
      have "0 \<le> r + int j" using e0(1) by (simp add: r_def e le_max_iff_disj)
      then have Dj: "D \<le> j" using D False by simp
      then have jj: "j = (j - D) + D" by simp
      have "M = (m * 2 ^ (j - D)) * 2 ^ D"
        unfolding M_def by (subst jj) (simp only: power_add mult.assoc)
      then have "rne_shift M D = m * 2 ^ (j - D)" by (simp only: rne_shift_exact)
      then have "V = (m * 2 ^ (j - D)) * 2 ^ D" using V by simp
      also have "\<dots> = m * 2 ^ j" by (subst (2) jj) (simp only: power_add mult.assoc)
      finally have "V = m * 2 ^ j" .
      moreover have "q = m" using rne_shift_exact [of m 0] by (simp add: q_def d0)
      ultimately show ?thesis by (simp add: d0)
    qed
  qed
  have rv: "real_of_int q * p2 (e + int d) = real_of_int V * p2 e0"
  proof -
    have "e + int d = e0 + int (d + j)" using e by simp
    then have "p2 (e + int d) = p2 e0 * 2 ^ (d + j)" by (simp only: p2_add p2_nat)
    then show ?thesis using val [symmetric] by simp
  qed
  have ov: "(2 ^ 277 \<le> \<bar>q\<bar> * 2 ^ nat (e + int d + 149)) \<longleftrightarrow> 2 ^ 128 \<le> real_of_int V * p2 e0"
  proof -
    have n: "0 \<le> e + int d + 149" using dge by simp
    have p149: "p2 149 = 2 ^ 149" using p2_nat [of 149] by simp
    have "real_of_int (\<bar>q\<bar> * 2 ^ nat (e + int d + 149)) =
        real_of_int q * 2 ^ nat (e + int d + 149)" using q0 by simp
    also have "\<dots> = real_of_int q * p2 (e + int d + 149)" by (simp only: p2_nat' [OF n])
    also have "\<dots> = real_of_int q * p2 (e + int d) * p2 149" by (simp only: p2_add mult.assoc)
    also have "\<dots> = (real_of_int V * p2 e0) * p2 149" by (simp only: rv)
    finally have x: "real_of_int (\<bar>q\<bar> * 2 ^ nat (e + int d + 149)) =
        (real_of_int V * p2 e0) * 2 ^ 149" by (simp only: p149)
    have "(2 ^ 277 \<le> \<bar>q\<bar> * 2 ^ nat (e + int d + 149)) \<longleftrightarrow>
        real_of_int (2 ^ 277) \<le> real_of_int (\<bar>q\<bar> * 2 ^ nat (e + int d + 149))"
      by (simp only: of_int_le_iff)
    also have "\<dots> \<longleftrightarrow> (2 ^ 128 :: real) * 2 ^ 149 \<le> (real_of_int V * p2 e0) * 2 ^ 149"
      unfolding x by simp
    also have "\<dots> \<longleftrightarrow> 2 ^ 128 \<le> real_of_int V * p2 e0"
      by (rule mult_le_cancel_right_pos) simp
    finally show ?thesis .
  qed
  have qpos: "0 < q" if "2 ^ 277 \<le> \<bar>q\<bar> * 2 ^ nat (e + int d + 149)"
  proof (rule ccontr)
    assume "\<not> 0 < q"
    then have "q = 0" using q0 by simp
    then show False using that by simp
  qed
  have "round32 m e = (if 2 ^ 277 \<le> \<bar>q\<bar> * 2 ^ nat (e + int d + 149) then PInf
      else Finite q (e + int d))"
    using qpos by (simp add: round32_def Let_def d_def [symmetric] q_def [symmetric])
  then have "round32 m e = (if 2 ^ 128 \<le> real_of_int V * p2 e0 then PInf
      else Finite q (e + int d))"
    by (simp only: ov)
  with q0 rv show ?thesis by blast
qed

lemma round32_nonpos:
  assumes "m \<le> 0"
  shows "round32 m e = MInf \<or> (\<exists>q g. q \<le> 0 \<and> round32 m e = Finite q g)"
proof -
  define d where "d = nat (max (bitlen \<bar>m\<bar> - 24) (- 149 - e))"
  define q where "q = rne_shift m d"
  have q: "q \<le> 0" unfolding q_def using assms by (rule rne_shift_nonpos)
  have "round32 m e = (if 2 ^ 277 \<le> \<bar>q\<bar> * 2 ^ nat (e + int d + 149)
      then (if 0 < q then PInf else MInf) else Finite q (e + int d))"
    by (simp add: round32_def Let_def d_def [symmetric] q_def [symmetric])
  then show ?thesis using q by (cases "2 ^ 277 \<le> \<bar>q\<bar> * 2 ^ nat (e + int d + 149)") auto
qed

lemma round32_nonneg:
  assumes "0 \<le> m"
  shows "round32 m e = PInf \<or> (\<exists>q g. 0 \<le> q \<and> round32 m e = Finite q g)"
proof -
  have "min e (- 149) \<le> - 149" "min e (- 149) \<le> e" by simp_all
  from round32_aligned [OF assms this] obtain q g C where
    "0 \<le> q" "round32 m e = (if C then PInf else Finite q g)" by blast
  then show ?thesis by (cases C) auto
qed

text \<open>Rounding is monotone: a smaller exact value never rounds above a larger one.\<close>

lemma round32_mono:
  assumes m2: "0 \<le> m2"
    and le: "real_of_int m1 * p2 e1 \<le> real_of_int m2 * p2 e2"
  shows "\<not> flt (round32 m2 e2) (round32 m1 e1)"
proof (cases "0 \<le> m1")
  case True
  define e0 where "e0 = min (min e1 e2) (- 149)"
  have e0: "e0 \<le> - 149" "e0 \<le> e1" "e0 \<le> e2" by (simp_all add: e0_def)
  define M1 where "M1 = m1 * 2 ^ nat (e1 - e0)"
  define M2 where "M2 = m2 * 2 ^ nat (e2 - e0)"
  have v: "real_of_int (m * 2 ^ nat (e - e0)) * p2 e0 = real_of_int m * p2 e" if "e0 \<le> e" for m e
  proof -
    have "e = e0 + int (nat (e - e0))" using that by simp
    then have "p2 e = p2 (e0 + int (nat (e - e0)))" by (rule arg_cong)
    then have "p2 e = p2 e0 * 2 ^ nat (e - e0)" by (simp only: p2_add p2_nat)
    then show ?thesis by simp
  qed
  have "real_of_int M1 * p2 e0 \<le> real_of_int M2 * p2 e0"
    using le by (simp only: M1_def M2_def v [OF e0(2)] v [OF e0(3)])
  then have "real_of_int M1 \<le> real_of_int M2"
    using p2_pos [of e0] by (simp only: mult_le_cancel_right_pos)
  then have MM: "M1 \<le> M2" by (simp only: of_int_le_iff)
  have M10: "0 \<le> M1" using True by (simp add: M1_def)
  have VV: "aligned e0 M1 \<le> aligned e0 M2" using e0(1) M10 MM by (rule aligned_mono)
  then have rV: "real_of_int (aligned e0 M1) * p2 e0 \<le> real_of_int (aligned e0 M2) * p2 e0"
    using p2_pos [of e0] by simp
  from round32_aligned [OF True e0(1,2)] obtain q1 g1 where
    r1: "real_of_int q1 * p2 g1 = real_of_int (aligned e0 M1) * p2 e0"
      "round32 m1 e1 = (if 2 ^ 128 \<le> real_of_int (aligned e0 M1) * p2 e0 then PInf
         else Finite q1 g1)"
    unfolding M1_def by blast
  from round32_aligned [OF m2 e0(1,3)] obtain q2 g2 where
    r2: "real_of_int q2 * p2 g2 = real_of_int (aligned e0 M2) * p2 e0"
      "round32 m2 e2 = (if 2 ^ 128 \<le> real_of_int (aligned e0 M2) * p2 e0 then PInf
         else Finite q2 g2)"
    unfolding M2_def by blast
  show ?thesis
  proof (cases "2 ^ 128 \<le> real_of_int (aligned e0 M2) * p2 e0")
    case True
    then show ?thesis using r2(2) by simp
  next
    case False
    then have "\<not> 2 ^ 128 \<le> real_of_int (aligned e0 M1) * p2 e0" using rV by linarith
    then have a: "round32 m1 e1 = Finite q1 g1" using r1(2) by simp
    have b: "round32 m2 e2 = Finite q2 g2" using False r2(2) by simp
    show ?thesis unfolding a b flt_Finite_iff r1(1) r2(1) using rV by linarith
  qed
next
  case False
  then have "m1 \<le> 0" by simp
  from round32_nonpos [OF this, of e1] round32_nonneg [OF m2, of e2]
  show ?thesis
  proof (elim disjE exE conjE)
    fix q g q' g'
    assume a: "q \<le> 0" "round32 m1 e1 = Finite q g" "0 \<le> q'" "round32 m2 e2 = Finite q' g'"
    have "real_of_int q * p2 g \<le> 0"
      using a(1) p2_pos [of g] by (simp add: mult_nonpos_nonneg)
    moreover have "0 \<le> real_of_int q' * p2 g'" using a(3) p2_pos [of g'] by simp
    ultimately show ?thesis unfolding a(2,4) flt_Finite_iff by linarith
  qed simp_all
qed

lemma flt_PInf_left [simp]: "\<not> flt PInf x" by (cases x) simp_all
lemma flt_NaN_left [simp]: "\<not> flt NaN x" by (cases x) simp_all
lemma flt_MInf_right [simp]: "\<not> flt x MInf" by (cases x) simp_all
lemma flt_NaN_right [simp]: "\<not> flt x NaN" by (cases x) simp_all
lemma fmul_NaN_right [simp]: "fmul x NaN = NaN" by (cases x) simp_all

lemma uint_pow2_word: "k < 32 \<Longrightarrow> uint ((2 :: 32 word) ^ k) = 2 ^ k"
proof -
  assume "k < 32"
  then have "int (unat ((2 :: 32 word) ^ k)) = int (2 ^ k)"
    by (simp only: pow2_word_unat)
  then show ?thesis by simp
qed

lemma p2_0: "p2 0 = 1" by (simp add: p2_def)

lemma bitlen_1: "bitlen 1 = 1" by (subst compute_bitlen) simp

lemma real_uint: "real_of_int (uint (a :: 32 word)) = real (unat a)" by simp

lemma float_of_u32_pow2:
  assumes k: "k < 32"
  shows "\<exists>q g. 0 < q \<and> float_of_u32 (2 ^ k) = Finite q g \<and> real_of_int q * p2 g = 2 ^ k"
proof -
  define d where "d = k - 23"
  have dk: "d \<le> k" by (simp add: d_def)
  have bl: "bitlen (2 ^ k) = int k + 1" using bitlen_pow2 [of 1 k] by (simp add: bitlen_1)
  have d: "nat (max (bitlen \<bar>2 ^ k\<bar> - 24) (- 149 - 0)) = d"
    by (simp add: bl d_def)
  have kk: "k = (k - d) + d" using dk by simp
  have "(2::int) ^ k = 2 ^ (k - d) * 2 ^ d" by (subst kk) (simp only: power_add)
  then have q: "rne_shift (2 ^ k) d = 2 ^ (k - d)" by (simp only: rne_shift_exact)
  have "nat (int d + 149) = d + 149" by simp
  then have "(2::int) ^ (k - d) * 2 ^ nat (0 + int d + 149) = 2 ^ (k + 149)"
    using dk by (simp add: power_add [symmetric])
  moreover have "(2::int) ^ (k + 149) < 2 ^ 277"
    using k by (intro power_strict_increasing) simp_all
  ultimately have no: "\<not> (2::int) ^ 277 \<le> \<bar>2 ^ (k - d)\<bar> * 2 ^ nat (0 + int d + 149)" by simp
  have "round32 (2 ^ k) 0 = Finite (2 ^ (k - d)) (int d)"
    unfolding round32_def Let_def d q using no by simp
  moreover have "real_of_int (2 ^ (k - d)) * p2 (int d) = 2 ^ k"
    using dk by (simp add: p2_nat power_add [symmetric])
  ultimately show ?thesis
    by (simp add: float_of_u32_def uint_pow2_word [OF k])
qed

text \<open>
  The two load tests of the code against the exact products, for a capacity that is a power
  of two: if the single-precision test succeeds, the inequality holds in exact arithmetic.
\<close>

lemma grow_test_exact:
  assumes k: "k < 32"
    and t: "flt (fmul (float_of_u32 (2 ^ k)) f) (float_of_u32 a)"
  shows "prod_lt (2 ^ k) f (unat a)"
proof -
  from float_of_u32_pow2 [OF k] obtain q g where
    q: "0 < q" "float_of_u32 (2 ^ k) = Finite q g" "real_of_int q * p2 g = 2 ^ k" by blast
  show ?thesis
  proof (cases f)
    case (Finite m e)
    have P: "real_of_int (q * m) * p2 (g + e) = 2 ^ k * (real_of_int m * p2 e)"
      using q(3) by (simp add: p2_add mult_ac)
    have "2 ^ k * (real_of_int m * p2 e) < real (unat a)"
    proof (rule ccontr)
      assume "\<not> 2 ^ k * (real_of_int m * p2 e) < real (unat a)"
      then have "real (unat a) \<le> 2 ^ k * (real_of_int m * p2 e)" by simp
      then have le: "real_of_int (uint a) * p2 0 \<le> real_of_int (q * m) * p2 (g + e)"
        unfolding P p2_0 real_uint by simp
      have "0 \<le> uint a" by simp
      then have "0 \<le> real_of_int (uint a)" by (simp only: of_int_0_le_iff)
      then have "0 \<le> real_of_int (uint a) * p2 0" unfolding p2_0 by simp
      with le have "0 \<le> real_of_int (q * m) * p2 (g + e)" by linarith
      then have "0 \<le> real_of_int (q * m)"
        using p2_pos [of "g + e"] by (simp only: zero_le_mult_iff) linarith
      then have "0 \<le> q * m" by (simp only: of_int_0_le_iff)
      moreover have "flt (round32 (q * m) (g + e)) (round32 (uint a) 0)"
        using t unfolding q(2) Finite by (simp add: float_of_u32_def)
      ultimately show False using round32_mono [OF _ le] by blast
    qed
    then show ?thesis by (simp add: prod_lt_def valof_def Finite p2_def)
  next
    case PInf
    then show ?thesis using t q(1) unfolding q(2) by simp
  next
    case MInf
    then show ?thesis by (simp add: prod_lt_def)
  next
    case NaN
    then show ?thesis using t by simp
  qed
qed

lemma shrink_test_exact:
  assumes k: "k < 32"
    and t: "flt (float_of_u32 a) (fmul (float_of_u32 (2 ^ k)) f)"
  shows "lt_prod (unat a) (2 ^ k) f"
proof -
  from float_of_u32_pow2 [OF k] obtain q g where
    q: "0 < q" "float_of_u32 (2 ^ k) = Finite q g" "real_of_int q * p2 g = 2 ^ k" by blast
  show ?thesis
  proof (cases f)
    case (Finite m e)
    have P: "real_of_int (q * m) * p2 (g + e) = 2 ^ k * (real_of_int m * p2 e)"
      using q(3) by (simp add: p2_add mult_ac)
    have "real (unat a) < 2 ^ k * (real_of_int m * p2 e)"
    proof (rule ccontr)
      assume "\<not> real (unat a) < 2 ^ k * (real_of_int m * p2 e)"
      then have "2 ^ k * (real_of_int m * p2 e) \<le> real (unat a)" by simp
      then have le: "real_of_int (q * m) * p2 (g + e) \<le> real_of_int (uint a) * p2 0"
        unfolding P p2_0 real_uint by simp
      have "0 \<le> uint a" by simp
      moreover have "flt (round32 (uint a) 0) (round32 (q * m) (g + e))"
        using t unfolding q(2) Finite by (simp add: float_of_u32_def)
      ultimately show False using round32_mono [OF _ le] by blast
    qed
    then show ?thesis by (simp add: lt_prod_def valof_def Finite p2_def)
  next
    case PInf
    then show ?thesis by (simp add: lt_prod_def)
  next
    case MInf
    then show ?thesis using t q(1) unfolding q(2) by simp
  next
    case NaN
    then show ?thesis using t by simp
  qed
qed

section \<open>Sequences of operations\<close>

text \<open>
  A call of \<open>ht_insert\<close> or \<open>ht_remove\<close> with its arguments and the outcome of the
  allocation it may make. \<open>run_ops\<close> applies a list of calls in order; it is \<open>None\<close> when a
  call does not return.
\<close>

datatype ('k, 'v) ht_op =
    Insert "'k option" nat "'v option" bool
  | Remove "'k option" nat bool

fun op_key :: "('k, 'v) ht_op \<Rightarrow> 'k option" where
  "op_key (Insert k key_len v alloc) = k"
| "op_key (Remove k key_len alloc) = k"

fun apply_op :: "('k, 'v) hashtab \<Rightarrow> ('k, 'v) ht_op \<Rightarrow> ('k, 'v) hashtab option" where
  "apply_op ht (Insert k key_len v alloc) = Some (snd (ht_insert ht k key_len v alloc))"
| "apply_op ht (Remove k key_len alloc) = map_option snd (ht_remove ht k key_len alloc)"

fun run_ops :: "('k, 'v) hashtab \<Rightarrow> ('k, 'v) ht_op list \<Rightarrow> ('k, 'v) hashtab option" where
  "run_ops ht [] = Some ht"
| "run_ops ht (x # xs) = (case apply_op ht x of None \<Rightarrow> None | Some ht' \<Rightarrow> run_ops ht' xs)"

text \<open>The keys held by the occupied slots of a slot array.\<close>

definition table_keys :: "('k, 'v) htentry list \<Rightarrow> 'k option set" where
  "table_keys t = (\<lambda>c. fst (snd c)) ` set_mset (contents t)"

lemma contents_nth:
  assumes "x < length t" "occupied (t ! x)"
  shows "entry_content (t ! x) \<in># contents t"
  using assms by (simp add: contents_def)

lemma contents_elem:
  assumes "c \<in># contents t"
  obtains x where "x < length t" "occupied (t ! x)" "entry_content (t ! x) = c"
  using assms by (auto simp: contents_def in_set_conv_nth)

lemma ht_create_inv:
  assumes "ht_create dh dc config alloc_ht alloc_table = Some ht"
  shows "ht_inv ht" and "size_w ht = 2" and "active ht = 0" and "contents (table ht) = {#}"
    and "validate_load_factors (load_factor ht) (min_load_factor ht) = HT_SUCCESS"
proof -
  from assms obtain c where c: "config = Some c"
    and v: "validate_load_factors (cfg_load_factor c) (cfg_min_load_factor c) = HT_SUCCESS"
    and t: "table ht = replicate 2 zero_entry" and s: "size_w ht = 2" and a: "active ht = 0"
    and l: "load_factor ht = cfg_load_factor c" "min_load_factor ht = cfg_min_load_factor c"
    by (auto simp: ht_create_def split: option.splits if_splits)
  show "size_w ht = 2" by (rule s)
  show "active ht = 0" by (rule a)
  show c0: "contents (table ht) = {#}" by (simp add: t contents_replicate_zero)
  have "sized ht" unfolding sized_def
    by (rule bexI [of _ 1]) (simp_all add: s t)
  moreover have "slots_ok (table ht)"
    by (simp add: t slots_ok_def rh_local_def occupied_def zero_entry_def)
  ultimately show "ht_inv ht" by (simp add: ht_inv_def table_ok_def c0 a)
  show "validate_load_factors (load_factor ht) (min_load_factor ht) = HT_SUCCESS"
    using v by (simp only: l)
qed

lemma apply_op_inv:
  assumes "ht_inv ht"
  shows "\<exists>ht'. apply_op ht x = Some ht' \<and> ht_inv ht' \<and> same_config ht ht' \<and>
           table_keys (table ht') \<subseteq> insert (op_key x) (table_keys (table ht))"
proof (cases x)
  case (Insert k key_len v alloc)
  note p = ht_insert_post [OF assms, of k key_len v alloc]
  have "set_mset (contents (table (snd (ht_insert ht k key_len v alloc)))) \<subseteq>
      set_mset (add_mset (hash_func ht (the k) key_len, k, v) (contents (table ht)))"
    using p by (intro set_mset_mono) (simp add: ht_insert_post_def)
  then have "table_keys (table (snd (ht_insert ht k key_len v alloc))) \<subseteq>
      insert k (table_keys (table ht))"
    by (auto simp: table_keys_def)
  then show ?thesis using p Insert by (simp add: ht_insert_post_def)
next
  case (Remove k key_len alloc)
  from ht_remove_post [OF assms, of k key_len alloc]
  obtain r where r: "ht_remove ht k key_len alloc = Some r"
    and p: "snd r = ht \<or> remove_post ht r" by auto
  have "ht_inv (snd r) \<and> same_config ht (snd r) \<and>
      contents (table (snd r)) \<subseteq># contents (table ht)"
    using p assms by (auto simp: remove_post_def same_config_refl)
  moreover from this have "table_keys (table (snd r)) \<subseteq> table_keys (table ht)"
    using set_mset_mono [of "contents (table (snd r))" "contents (table ht)"]
    by (auto simp: table_keys_def)
  ultimately show ?thesis using r Remove by auto
qed

lemma run_ops_inv:
  "ht_inv ht \<Longrightarrow>
   \<exists>ht'. run_ops ht xs = Some ht' \<and> ht_inv ht' \<and> same_config ht ht' \<and>
     table_keys (table ht') \<subseteq> table_keys (table ht) \<union> op_key ` set xs"
proof (induction xs arbitrary: ht)
  case Nil
  then show ?case by (simp add: same_config_refl)
next
  case (Cons x xs)
  from apply_op_inv [OF Cons.prems, of x]
  obtain h1 where a: "apply_op ht x = Some h1" and iv: "ht_inv h1" and sc: "same_config ht h1"
    and k: "table_keys (table h1) \<subseteq> insert (op_key x) (table_keys (table ht))" by auto
  from Cons.IH [OF iv]
  obtain h2 where r: "run_ops h1 xs = Some h2" and iv2: "ht_inv h2" and sc2: "same_config h1 h2"
    and k2: "table_keys (table h2) \<subseteq> table_keys (table h1) \<union> op_key ` set xs" by auto
  have "same_config ht h2" using sc sc2 by (rule same_config_trans)
  moreover have "table_keys (table h2) \<subseteq> table_keys (table ht) \<union> op_key ` set (x # xs)"
    using k k2 by auto
  ultimately show ?case using a r iv2 by simp
qed

lemma created_run_ops:
  assumes "ht_create dh dc config alloc_ht alloc_table = Some ht0"
  shows "\<exists>ht. run_ops ht0 xs = Some ht \<and> ht_inv ht \<and> same_config ht0 ht \<and>
           table_keys (table ht) \<subseteq> op_key ` set xs"
  using run_ops_inv [OF ht_create_inv(1) [OF assms], of xs] ht_create_inv(4) [OF assms]
  by (auto simp: table_keys_def)

lemma remove_loop_finds:
  "ht_inv ht \<Longrightarrow> x < length (table ht) \<Longrightarrow> matches ht hk k (table ht ! x) \<Longrightarrow>
   unat pc \<le> unat (psl (table ht ! x)) \<Longrightarrow>
   \<exists>r. remove_loop ht hk k alloc pc = Some r \<and> fst r = HT_SUCCESS \<and> remove_post ht r"
proof (induction ht hk k alloc pc rule: remove_loop.induct)
  case (1 ht hk k alloc pc)
  let ?t = "table ht"
  let ?n = "length ?t"
  note iv = \<open>ht_inv ht\<close>
  have ok: "table_ok ht" using iv by (simp add: ht_inv_def)
  note f = table_ok_facts [OF ok]
  note x = \<open>x < ?n\<close>
  note m = \<open>matches ht hk k (?t ! x)\<close>
  note le = \<open>unat pc \<le> unat (psl (?t ! x))\<close>
  have occ: "occupied (?t ! x)" and hx: "hash_key (?t ! x) = hk"
    using m by (simp_all add: matches_def occupied_def)
  have sx: "slot_ok ?n x (?t ! x)" using f(6) x occ by (simp add: slots_ok_def)
  then have "unat pc < ?n" using le by (simp add: slot_ok_def)
  then have i_lt: "pc < size_w ht" using f(1) by (simp add: word_less_nat_alt)
  have i_suc: "unat (pc + 1) = Suc (unat pc)" using i_lt by (rule word_less_unat_Suc)
  define z where "z = probe_func hk pc (size_w ht)"
  define E where "E = ?t ! unat z"
  have z_eq: "unat z = (unat hk + unat pc) mod ?n" unfolding z_def by (rule f(4))
  have p: "occupied E \<and> unat pc \<le> unat (psl E)"
    using rh_path [OF f(6) x occ le] by (simp add: E_def z_eq hx)
  have kE: "key E \<noteq> None" using p by (simp add: occupied_def)
  show ?case
  proof (cases "hash_key E = hk \<and> cmp_func ht (the (key E)) k = 0")
    case found: True
    from remove_found_post [OF iv i_lt z_def, of alloc] kE
    obtain ht2 where s: "shift_entries_backward
        (ht\<lparr>table := ?t[unat z := (free_entry ht (?t ! unat z))\<lparr>key := None, val := None\<rparr>]\<rparr>)
        z hk pc = Some ht2"
      and q: "remove_post ht (HT_SUCCESS, remove_table_update ht2 alloc)"
      by (auto simp: E_def)
    have "remove_loop ht hk k alloc pc = Some (HT_SUCCESS, remove_table_update ht2 alloc)"
      using i_lt kE found s by (subst remove_loop.simps) (auto simp: z_def E_def Let_def)
    then show ?thesis using q by simp
  next
    case False
    have np: "\<not> psl E < pc" using p by (simp add: word_less_nat_alt)
    have r: "remove_loop ht hk k alloc pc = remove_loop ht hk k alloc (pc + 1)"
      using i_lt kE False np by (subst remove_loop.simps) (auto simp: z_def E_def Let_def)
    have "unat pc \<noteq> unat (psl (?t ! x))"
    proof
      assume "unat pc = unat (psl (?t ! x))"
      then have "unat z = x" using sx by (simp add: z_eq slot_ok_def hx)
      then show False using m False by (simp add: E_def matches_def)
    qed
    then have le': "unat (pc + 1) \<le> unat (psl (?t ! x))" using le by (simp add: i_suc)
    have "\<exists>r. remove_loop ht hk k alloc (pc + 1) = Some r \<and> fst r = HT_SUCCESS \<and> remove_post ht r"
      using i_lt z_def E_def kE False np iv x m le' by (rule "1.IH")
    then show ?thesis by (simp add: r)
  qed
qed

text \<open>
  The result code of \<open>ht_insert\<close> on a well-formed table that has a free slot once the
  grow check is passed, and the content of the table it returns. \<open>grow_needed\<close> is the grow
  check of \<open>ht_insert\<close>.
\<close>

definition grow_needed :: "('k, 'v) hashtab \<Rightarrow> bool" where
  "grow_needed ht \<longleftrightarrow> fgt (float_of_u32 (active ht + 1)) (fmul (float_of_u32 (size_w ht)) (load_factor ht))"

lemma ht_insert_result:
  assumes iv: "ht_inv ht" and free: "grow_needed ht \<or> active ht < size_w ht"
  shows "fst (ht_insert ht k key_len v alloc) =
      (if k = None \<or> key_len = 0 then HT_INVALID_ARG
       else if ht_search ht k key_len \<noteq> None then HT_KEY_EXISTS
       else if grow_needed ht \<and> validate_size (size_w ht) (push_bit 1 (size_w ht)) \<noteq> HT_SUCCESS
         then HT_FAILURE
       else if grow_needed ht \<and> \<not> alloc then HT_MEM_ERROR
       else HT_SUCCESS)"
    and "fst (ht_insert ht k key_len v alloc) \<noteq> HT_SUCCESS \<Longrightarrow>
           snd (ht_insert ht k key_len v alloc) = ht"
    and "fst (ht_insert ht k key_len v alloc) = HT_SUCCESS \<Longrightarrow>
           contents (table (snd (ht_insert ht k key_len v alloc))) =
             add_mset (hash_func ht (the k) key_len, k, v) (contents (table ht))"
proof -
  let ?r = "ht_insert ht k key_len v alloc"
  let ?c = "(hash_func ht (the k) key_len, k, v)"
  have "fst ?r =
      (if k = None \<or> key_len = 0 then HT_INVALID_ARG
       else if ht_search ht k key_len \<noteq> None then HT_KEY_EXISTS
       else if grow_needed ht \<and> validate_size (size_w ht) (push_bit 1 (size_w ht)) \<noteq> HT_SUCCESS
         then HT_FAILURE
       else if grow_needed ht \<and> \<not> alloc then HT_MEM_ERROR
       else HT_SUCCESS) \<and>
      (fst ?r \<noteq> HT_SUCCESS \<longrightarrow> snd ?r = ht) \<and>
      (fst ?r = HT_SUCCESS \<longrightarrow> contents (table (snd ?r)) = add_mset ?c (contents (table ht)))"
    (is "?goal")
  proof (cases k)
    case None
    then show ?goal by (simp add: ht_insert_def)
  next
    case (Some kk)
    show ?goal
    proof (cases "key_len = 0 \<or> ht_search ht k key_len \<noteq> None")
      case True
      then show ?goal using Some by (auto simp: ht_insert_def)
    next
      case False
      then have len: "key_len \<noteq> 0" and ns: "ht_search ht (Some kk) key_len = None"
        using Some by simp_all
      show ?goal
      proof (cases "grow_needed ht")
        case nogrow: False
        have r: "?r = insert_entry ht (hash_func ht kk key_len) (Some kk) v"
          using Some len ns nogrow by (simp add: ht_insert_def grow_needed_def)
        have "active ht < size_w ht" using free nogrow by simp
        with iv have room: "size (contents (table ht)) < length (table ht)"
          by (rule no_grow_room)
        note x = insert_entry_exact [OF iv _ room, of "Some kk" "hash_func ht kk key_len" v]
        show ?goal unfolding r using x(1) x(2) Some len ns nogrow by simp
      next
        case grow: True
        define new where "new = push_bit 1 (size_w ht)"
        have ins: "\<And>alloc. ht_insert ht k key_len v alloc =
            (if validate_size (size_w ht) new \<noteq> HT_SUCCESS
             then (validate_size (size_w ht) new, ht)
             else (case resize ht new alloc of
                     (result, ht') \<Rightarrow>
                       if result \<noteq> HT_SUCCESS then (result, ht')
                       else insert_entry ht' (hash_func ht' kk key_len) (Some kk) v))"
          using Some len ns grow by (simp add: ht_insert_def new_def grow_needed_def)
        show ?goal
        proof (cases "validate_size (size_w ht) new = HT_SUCCESS")
          case False
          then have "validate_size (size_w ht) new = HT_FAILURE"
            by (simp add: validate_size_def split: if_splits)
          then have r: "?r = (HT_FAILURE, ht)" by (simp add: ins)
          show ?goal unfolding r using Some len ns grow False by (simp add: new_def)
        next
          case valid: True
          from iv obtain e where e: "e \<in> {1..30}" "size_w ht = 2 ^ e" "length (table ht) = 2 ^ e"
            by (auto simp: ht_inv_def table_ok_def sized_def)
          have e30: "e \<le> 30" using e(1) by simp
          note g = validate_size_grow [OF e30 valid [unfolded new_def e(2)]]
          have new2: "new = 2 ^ Suc e" unfolding new_def e(2) by (rule g(2))
          have se: "Suc e \<in> {1..30}" using g(1) by simp
          note p = resize_post [OF iv se, of alloc, folded new2]
          show ?goal
          proof (cases alloc)
            case False
            then have r: "?r = (HT_MEM_ERROR, ht)" using valid p(4) by (simp add: ins)
            show ?goal unfolding r using Some len ns grow valid False by (simp add: new_def)
          next
            case True
            define ht1 where "ht1 = snd (resize ht new alloc)"
            note q = p [folded ht1_def]
            have r1: "resize ht new alloc = (HT_SUCCESS, ht1)" using q(4) True by simp
            have hf: "hash_func ht1 = hash_func ht" using q(2) by (simp add: same_config_def)
            have r: "?r = insert_entry ht1 (hash_func ht kk key_len) (Some kk) v"
              using valid r1 hf by (simp add: ins)
            have fits: "size (contents (table ht)) \<le> 2 ^ Suc e"
              using contents_size_le [of "table ht"] e(3) by simp
            have c1: "contents (table ht1) = contents (table ht)"
              using resize_exact [OF iv se fits] True by (simp add: ht1_def new2)
            have l1: "length (table ht1) = 2 ^ Suc e"
              using q(1) q(5) True table_ok_facts(1) [of ht1] pow2_word_unat [of "Suc e"] g(1)
              by (simp add: ht_inv_def new2)
            have "(0 :: nat) < 2 ^ e" by simp
            then have "size (contents (table ht)) < 2 * 2 ^ e"
              using contents_size_le [of "table ht"] e(3) by linarith
            then have room: "size (contents (table ht1)) < length (table ht1)"
              by (simp add: c1 l1)
            note x = insert_entry_exact [OF q(1) _ room, of "Some kk" "hash_func ht kk key_len" v]
            show ?goal unfolding r using x(1) x(2) Some len ns grow valid True by (simp add: c1 new_def)
          qed
        qed
      qed
    qed
  qed
  then show "fst ?r =
      (if k = None \<or> key_len = 0 then HT_INVALID_ARG
       else if ht_search ht k key_len \<noteq> None then HT_KEY_EXISTS
       else if grow_needed ht \<and> validate_size (size_w ht) (push_bit 1 (size_w ht)) \<noteq> HT_SUCCESS
         then HT_FAILURE
       else if grow_needed ht \<and> \<not> alloc then HT_MEM_ERROR
       else HT_SUCCESS)"
    and "fst ?r \<noteq> HT_SUCCESS \<Longrightarrow> snd ?r = ht"
    and "fst ?r = HT_SUCCESS \<Longrightarrow> contents (table (snd ?r)) = add_mset ?c (contents (table ht))"
    by simp_all
qed

lemma validate_size_double:
  assumes "e \<le> 29"
  shows "validate_size s (push_bit 1 ((2 :: 32 word) ^ e)) = HT_SUCCESS"
proof -
  have p: "push_bit 1 ((2 :: 32 word) ^ e) = 2 ^ Suc e"
    by (simp add: push_bit_eq_mult mult.commute)
  show ?thesis unfolding p
    by (rule validate_size_pow2) (use assms in simp)
qed

lemma pow2_word_le:
  assumes "e \<le> 30" "d \<le> 30" "(2 :: 32 word) ^ e \<le> 2 ^ d"
  shows "e \<le> d"
proof -
  have "unat ((2 :: 32 word) ^ e) \<le> unat ((2 :: 32 word) ^ d)"
    using assms(3) by (simp add: word_le_nat_alt)
  then have "(2 :: nat) ^ e \<le> 2 ^ d"
    using assms(1,2) by (simp add: pow2_word_unat)
  then show ?thesis by (simp only: power_increasing_iff)
qed

text \<open>Explicit tables of the example instance, and the equations that evaluate the operations on them.\<close>

definition stale :: "32 word \<Rightarrow> 32 word \<Rightarrow> (32 word, nat) htentry" where
  "stale h p = \<lparr>hash_key = h, psl = p, key = None, val = None\<rparr>"

definition ex_slots ::
  "(32 word, nat) htentry list \<Rightarrow> 32 word \<Rightarrow> 32 word \<Rightarrow> float32 \<Rightarrow> float32 \<Rightarrow> (32 word, nat) hashtab" where
  "ex_slots t s a lf mlf =
     \<lparr>table = t, size_w = s, active = a, load_factor = lf, min_load_factor = mlf,
      hash_func = ex_hash, cmp_func = ex_cmp, free_key = False, free_val = False\<rparr>"

text \<open>Rounding of a numeral: these equations unfold \<open>round32\<close> on concrete operands only.\<close>

lemma bitlen_numeral: "bitlen (numeral n) = bitlen (numeral n div 2) + 1"
  by (subst compute_bitlen) simp

lemma round32_numeral:
  "round32 (numeral n) e =
     (let d = nat (max (bitlen (numeral n) - 24) (- 149 - e));
          q = rne_shift (numeral n) d
      in if 2 ^ 277 \<le> \<bar>q\<bar> * 2 ^ nat (e + int d + 149)
         then (if 0 < q then PInf else MInf)
         else Finite q (e + int d))"
  by (simp add: round32_def)

lemma round32_0: "round32 0 0 = Finite 0 0"
  by (simp add: round32_def rne_shift_def)

lemma round32_1: "round32 1 0 = Finite 1 0"
  by (simp add: round32_def rne_shift_def bitlen_1)

lemma replicate_small:
  "replicate 2 x = [x, x]" "replicate 4 x = [x, x, x, x]"
  "replicate 8 x = [x, x, x, x, x, x, x, x]"
  by (simp_all add: eval_nat_numeral)

lemmas eval_simps = replicate_small
  ht_create_def validate_load_factors_def ex_config_def
  ht_insert_def ht_search_def search_loop.simps insert_entry_def insert_loop.simps
  resize_def rehash_entries_def rehash_loop.simps probe_func_def validate_size_def
  UINT32_MAX_def ex_table_def ex_slots_def ex_hash_def ex_cmp_def slot_def stale_def
  zero_entry_def Let_def ht_remove_def remove_entry_def remove_loop.simps
  shift_entries_backward_def remove_table_update_def free_entry_def
  f32_0_75_def f32_0_25_def f32_0_9_def f32_1_def fgt_def fge_def float_of_u32_def
  float_of_int_def round32_numeral round32_0 round32_1 rne_shift_def bitlen_numeral bitlen_1

lemma ex_created:
  "ht_create ex_hash ex_cmp (Some (ex_config f32_0_75 f32_0_25)) True True = Some (ex_table f32_0_75 f32_0_25)"
  by (simp add: eval_simps)

lemma ex_cmp_consistent: "\<forall>a b. cmp_func (ex_table lf mlf) a b = 0 \<longleftrightarrow> a = b"
  by (simp add: ex_table_def ex_cmp_def)

lemma ex_insert_0:
  "ht_insert (ex_table f32_0_75 f32_0_25) (Some 0) 1 (Some 10) True =
     (HT_SUCCESS, ex_slots [slot 0 0 0 (Some 10), zero_entry] 2 1 f32_0_75 f32_0_25)"
  by (simp add: eval_simps)

lemma ex_insert_0_1:
  "ht_insert (ex_slots [slot 0 0 0 (Some 10), zero_entry] 2 1 f32_0_75 f32_0_25) (Some 1) 1 (Some 11) True =
     (HT_SUCCESS,
      ex_slots [slot 0 0 0 (Some 10), slot 1 0 1 (Some 11), zero_entry, zero_entry] 4 2 f32_0_75 f32_0_25)"
  by (simp add: eval_simps)

lemma ex_insert_1:
  "ht_insert (ex_table f32_0_75 f32_0_25) (Some 1) 1 (Some 11) True =
     (HT_SUCCESS, ex_slots [zero_entry, slot 1 0 1 (Some 11)] 2 1 f32_0_75 f32_0_25)"
  by (simp add: eval_simps)

lemma ex_insert_1_0:
  "ht_insert (ex_slots [zero_entry, slot 1 0 1 (Some 11)] 2 1 f32_0_75 f32_0_25) (Some 0) 1 (Some 10) True =
     (HT_SUCCESS,
      ex_slots [slot 0 0 0 (Some 10), slot 1 0 1 (Some 11), zero_entry, zero_entry] 4 2 f32_0_75 f32_0_25)"
  by (simp add: eval_simps)

lemma ex_remove_1:
  "ht_remove
     (ex_slots [slot 0 0 0 (Some 10), slot 1 0 1 (Some 11), zero_entry, zero_entry] 4 2 f32_0_75 f32_0_25)
     (Some 1) 1 True =
   Some (HT_SUCCESS,
     ex_slots [slot 0 0 0 (Some 10), stale 1 0, zero_entry, zero_entry] 4 1 f32_0_75 f32_0_25)"
  by (simp add: eval_simps) (subst shift_loop.simps, simp add: eval_simps)

lemma ex_remove_1_0:
  "ht_remove
     (ex_slots [slot 0 0 0 (Some 10), stale 1 0, zero_entry, zero_entry] 4 1 f32_0_75 f32_0_25)
     (Some 0) 1 True =
   Some (HT_SUCCESS, ex_table f32_0_75 f32_0_25)"
  by (simp add: eval_simps) (subst shift_loop.simps, simp add: eval_simps)

section \<open>Tables without NULL values and without duplicate keys\<close>

text \<open>
  A key held by a slot with a non-NULL value is refused by \<open>ht_insert\<close>, and a key
  held by exactly one slot is gone after one \<open>ht_remove\<close>.
\<close>

lemma ht_insert_present:
  assumes iv: "ht_inv ht" and len: "key_len \<noteq> 0" and x: "x < length (table ht)"
    and m: "matches ht (hash_func ht k key_len) k (table ht ! x)"
    and nn: "\<forall>y < length (table ht).
               matches ht (hash_func ht k key_len) k (table ht ! y) \<longrightarrow> val (table ht ! y) \<noteq> None"
  shows "ht_insert ht (Some k) key_len v alloc = (HT_KEY_EXISTS, ht)"
proof -
  have ok: "table_ok ht" using iv by (simp add: ht_inv_def)
  from ht_search_present [OF ok len x m] nn
  have "ht_search ht (Some k) key_len \<noteq> None" by auto
  then show ?thesis using len by (simp add: ht_insert_def)
qed

lemma remove_loop_absent:
  "sized ht \<Longrightarrow> \<forall>x < length (table ht). \<not> matches ht hk k (table ht ! x) \<Longrightarrow>
   remove_loop ht hk k alloc pc = Some (HT_KEY_NOT_FOUND, ht)"
proof (induction ht hk k alloc pc rule: remove_loop.induct)
  case (1 ht hk k alloc pc)
  define x where "x = probe_func hk pc (size_w ht)"
  define E where "E = table ht ! unat x"
  have x_lt: "unat x < length (table ht)" unfolding x_def by (rule sized_facts(5) [OF "1.prems"(1)])
  then have nm: "\<not> matches ht hk k E" using "1.prems"(2) by (simp add: E_def)
  show ?case
  proof (cases "pc < size_w ht \<and> key E \<noteq> None \<and> \<not> psl E < pc")
    case True
    then have nf: "\<not> (hash_key E = hk \<and> cmp_func ht (the (key E)) k = 0)"
      using nm by (auto simp: matches_def)
    have "remove_loop ht hk k alloc pc = remove_loop ht hk k alloc (pc + 1)"
      using True nf by (subst remove_loop.simps) (auto simp: x_def E_def Let_def)
    moreover have "remove_loop ht hk k alloc (pc + 1) = Some (HT_KEY_NOT_FOUND, ht)"
      using True nf "1.prems" by (intro "1.IH" [OF _ x_def E_def]) auto
    ultimately show ?thesis by simp
  next
    case False
    then show ?thesis
      using nm by (subst remove_loop.simps) (auto simp: x_def E_def Let_def matches_def)
  qed
qed

lemma remove_loop_removes:
  "ht_inv ht \<Longrightarrow> remove_loop ht hk k alloc pc = Some (HT_SUCCESS, ht') \<Longrightarrow>
   \<exists>x < length (table ht). matches ht hk k (table ht ! x) \<and>
     contents (table ht') \<subseteq># contents (table ht) - {#entry_content (table ht ! x)#}"
proof (induction ht hk k alloc pc rule: remove_loop.induct)
  case (1 ht hk k alloc pc)
  note iv = \<open>ht_inv ht\<close>
  note res = \<open>remove_loop ht hk k alloc pc = Some (HT_SUCCESS, ht')\<close>
  have ok: "table_ok ht" using iv by (simp add: ht_inv_def)
  define x where "x = probe_func hk pc (size_w ht)"
  define E where "E = table ht ! unat x"
  have x_lt: "unat x < length (table ht)" unfolding x_def by (rule table_ok_facts(5) [OF ok])
  have lt: "pc < size_w ht" and kE: "key E \<noteq> None"
    using res by (subst (asm) remove_loop.simps, auto simp: x_def E_def Let_def split: if_splits)+
  show ?case
  proof (cases "hash_key E = hk \<and> cmp_func ht (the (key E)) k = 0")
    case found: True
    from remove_found_post [OF iv lt x_def, of alloc] kE
    obtain ht2 where s: "shift_entries_backward
        (ht\<lparr>table := (table ht)[unat x :=
            (free_entry ht (table ht ! unat x))\<lparr>key := None, val := None\<rparr>]\<rparr>)
        x hk pc = Some ht2"
      and c: "contents (table (remove_table_update ht2 alloc)) \<subseteq>#
            contents (table ht) - {#entry_content (table ht ! unat x)#}"
      by (auto simp: E_def)
    have "remove_loop ht hk k alloc pc = Some (HT_SUCCESS, remove_table_update ht2 alloc)"
      using lt kE found s by (subst remove_loop.simps) (auto simp: x_def E_def Let_def)
    then have "ht' = remove_table_update ht2 alloc" using res by simp
    moreover have "matches ht hk k (table ht ! unat x)"
      using found kE by (simp add: matches_def E_def)
    ultimately show ?thesis using c x_lt by auto
  next
    case nf: False
    have np: "\<not> psl E < pc"
      using res lt kE nf
      by (subst (asm) remove_loop.simps) (auto simp: x_def E_def Let_def split: if_splits)
    have "remove_loop ht hk k alloc pc = remove_loop ht hk k alloc (pc + 1)"
      using lt kE nf np by (subst remove_loop.simps) (auto simp: x_def E_def Let_def)
    then have "remove_loop ht hk k alloc (pc + 1) = Some (HT_SUCCESS, ht')" using res by simp
    with lt x_def E_def kE nf np iv show ?thesis by (rule "1.IH")
  qed
qed

lemma contents_minus_elem:
  assumes x: "x < length t" and occ: "occupied (t ! x)"
    and c: "c \<in># contents t - {#entry_content (t ! x)#}"
  obtains z where "z < length t" "z \<noteq> x" "occupied (t ! z)" "entry_content (t ! z) = c"
proof -
  let ?t' = "t[x := (t ! x)\<lparr>key := None\<rparr>]"
  have "contents ?t' = contents t - {#entry_content (t ! x)#}"
    using occ by (simp add: contents_update [OF x] occupied_def)
  then have "c \<in># contents ?t'" using c by simp
  then obtain z where z: "z < length ?t'" "occupied (?t' ! z)" "entry_content (?t' ! z) = c"
    by (rule contents_elem)
  have "z \<noteq> x" using z(1,2) by (auto simp: occupied_def)
  then show ?thesis using z that by simp
qed

lemma remove_unique_key:
  assumes iv: "ht_inv ht" and len: "key_len \<noteq> 0" and x: "x < length (table ht)"
    and m: "matches ht (hash_func ht k key_len) k (table ht ! x)"
    and uniq: "\<forall>y < length (table ht).
                 matches ht (hash_func ht k key_len) k (table ht ! y) \<longrightarrow> y = x"
  shows "\<exists>ht'. ht_remove ht (Some k) key_len alloc = Some (HT_SUCCESS, ht') \<and>
           ht_search ht' (Some k) key_len = None \<and>
           ht_remove ht' (Some k) key_len alloc' = Some (HT_KEY_NOT_FOUND, ht')"
proof -
  let ?h = "hash_func ht k key_len"
  from remove_loop_finds [OF iv x m, of 0 alloc]
  obtain r where r: "remove_loop ht ?h k alloc 0 = Some r" and s: "fst r = HT_SUCCESS"
    and p: "remove_post ht r" by auto
  define ht' where "ht' = snd r"
  have r': "remove_loop ht ?h k alloc 0 = Some (HT_SUCCESS, ht')"
    using r s by (simp add: ht'_def prod_eq_iff)
  have iv': "ht_inv ht'" and sc: "same_config ht ht'"
    using p by (simp_all add: remove_post_def ht'_def)
  have sz': "sized ht'" using iv' by (simp add: ht_inv_def table_ok_def)
  have hf: "hash_func ht' = hash_func ht" and cf: "cmp_func ht' = cmp_func ht"
    using sc by (simp_all add: same_config_def)
  from remove_loop_removes [OF iv r']
  obtain x' where x': "x' < length (table ht)" "matches ht ?h k (table ht ! x')"
    and sub: "contents (table ht') \<subseteq># contents (table ht) - {#entry_content (table ht ! x')#}"
    by auto
  have xx: "x' = x" using uniq x' by simp
  have occ: "occupied (table ht ! x)" using m by (simp add: matches_def occupied_def)
  have none: "\<forall>y < length (table ht'). \<not> matches ht' ?h k (table ht' ! y)"
  proof (intro allI impI notI)
    fix y assume y: "y < length (table ht')" and my: "matches ht' ?h k (table ht' ! y)"
    have "occupied (table ht' ! y)" using my by (simp add: matches_def occupied_def)
    then have "entry_content (table ht' ! y) \<in># contents (table ht')"
      using y by (intro contents_nth)
    then have "entry_content (table ht' ! y) \<in>#
        contents (table ht) - {#entry_content (table ht ! x)#}"
      using sub unfolding xx by (rule mset_subset_eqD [rotated])
    with x occ obtain z where z: "z < length (table ht)" "z \<noteq> x"
      "entry_content (table ht ! z) = entry_content (table ht' ! y)"
      by (rule contents_minus_elem)
    have "matches ht ?h k (table ht ! z)"
      using my z(3) by (simp add: matches_def entry_content_def cf)
    then show False using uniq z(1,2) by simp
  qed
  have "ht_search ht' (Some k) key_len = None"
    using sz' none by (intro ht_search_absent) (simp_all add: hf)
  moreover have "ht_remove ht' (Some k) key_len alloc' = Some (HT_KEY_NOT_FOUND, ht')"
    using remove_loop_absent [OF sz', of ?h k alloc' 0] none len
    by (simp add: ht_remove_def remove_entry_def hf)
  moreover have "ht_remove ht (Some k) key_len alloc = Some (HT_SUCCESS, ht')"
    using r' len by (simp add: ht_remove_def remove_entry_def)
  ultimately show ?thesis by blast
qed

section \<open>The load tests on well-formed tables\<close>

text \<open>
  \<open>insert_ready ht alloc\<close>: the grow step of \<open>ht_insert\<close>, when the grow check asks for it,
  passes \<open>validate_size\<close> and obtains its allocation, and otherwise the table has a free slot.
\<close>

definition insert_ready :: "('k, 'v) hashtab \<Rightarrow> bool \<Rightarrow> bool" where
  "insert_ready ht alloc \<longleftrightarrow>
     (if grow_needed ht
      then validate_size (size_w ht) (push_bit 1 (size_w ht)) = HT_SUCCESS \<and> alloc
      else active ht < size_w ht)"

lemma float_of_int_0: "float_of_int 0 = Finite 0 0"
  by (simp add: float_of_int_def round32_0)

lemma float_of_int_1: "float_of_int 1 = Finite 1 0"
  by (simp add: float_of_int_def round32_1)

lemma valof_Finite: "valof (Finite m e) = real_of_int m * p2 e"
  by (simp add: valof_def p2_def)

text \<open>What \<open>validate_load_factors\<close> accepts: the stated ranges, and every NaN.\<close>

lemma validate_load_factors_finite:
  "validate_load_factors (Finite m e) (Finite m' e') = HT_SUCCESS \<longleftrightarrow>
     0 < valof (Finite m e) \<and> valof (Finite m e) \<le> 1 \<and>
     0 \<le> valof (Finite m' e') \<and> valof (Finite m' e') < valof (Finite m e)"
  unfolding validate_load_factors_def float_of_int_0 float_of_int_1 fgt_def fge_def
    flt_Finite_iff fle_Finite_iff valof_Finite
  by (auto simp: p2_0)

lemma validate_load_factors_NaN:
  "validate_load_factors NaN mlf = HT_SUCCESS \<longleftrightarrow> \<not> flt mlf (Finite 0 0)"
  "validate_load_factors (Finite m e) NaN = HT_SUCCESS \<longleftrightarrow>
     0 < valof (Finite m e) \<and> valof (Finite m e) \<le> 1"
  unfolding validate_load_factors_def float_of_int_0 float_of_int_1 fgt_def fge_def
    flt_Finite_iff fle_Finite_iff valof_Finite
  by (auto simp: p2_0)

lemma validate_load_factors_inf:
  "validate_load_factors PInf mlf = HT_INVALID_ARG"
  "validate_load_factors MInf mlf = HT_INVALID_ARG"
  by (simp_all add: validate_load_factors_def float_of_int_0 float_of_int_1 fgt_def)

text \<open>The grow and shrink tests of the code imply the inequalities of exact arithmetic.\<close>

lemma grow_needed_exact:
  assumes iv: "ht_inv ht" and g: "grow_needed ht"
  shows "prod_lt (unat (size_w ht)) (load_factor ht) (unat (active ht) + 1)"
proof -
  from iv obtain e where e: "e \<in> {1..30}" "size_w ht = 2 ^ e"
    by (auto simp: ht_inv_def table_ok_def sized_def)
  have e32: "e < 32" using e(1) by simp
  have "flt (fmul (float_of_u32 (2 ^ e)) (load_factor ht)) (float_of_u32 (active ht + 1))"
    using g by (simp add: grow_needed_def fgt_def e(2))
  with e32 have "prod_lt (2 ^ e) (load_factor ht) (unat (active ht + 1))"
    by (rule grow_test_exact)
  then show ?thesis
    by (simp add: e(2) pow2_word_unat [OF e32] inv_active_bound(3) [OF iv])
qed

lemma shrink_test_table_exact:
  assumes iv: "ht_inv ht"
    and t: "flt (float_of_u32 a) (fmul (float_of_u32 (size_w ht)) (min_load_factor ht))"
  shows "lt_prod (unat a) (unat (size_w ht)) (min_load_factor ht)"
proof -
  from iv obtain e where e: "e \<in> {1..30}" "size_w ht = 2 ^ e"
    by (auto simp: ht_inv_def table_ok_def sized_def)
  have e32: "e < 32" using e(1) by simp
  have "flt (float_of_u32 a) (fmul (float_of_u32 (2 ^ e)) (min_load_factor ht))"
    using t by (simp add: e(2))
  with e32 have "lt_prod (unat a) (2 ^ e) (min_load_factor ht)"
    by (rule shrink_test_exact)
  then show ?thesis by (simp add: e(2) pow2_word_unat [OF e32])
qed

text \<open>On a full table the placement loop runs out of steps.\<close>

lemma insert_entry_full:
  assumes iv: "ht_inv ht" and k: "k \<noteq> None" and full: "\<not> active ht < size_w ht"
  shows "fst (insert_entry ht hk k v) = HT_FAILURE"
proof -
  have ok: "table_ok ht" and a: "unat (active ht) = size (contents (table ht))"
    using iv by (simp_all add: ht_inv_def)
  have "unat (size_w ht) \<le> unat (active ht)" using full by (simp add: word_less_nat_alt)
  then have f: "length (table ht) \<le> size (contents (table ht))"
    using a table_ok_facts(1) [OF ok] by simp
  define r where "r = insert_entry ht hk k v"
  note p = insert_entry_post [OF ok k, of hk v, folded r_def, unfolded insert_post_def]
  have l: "length (table (snd r)) = length (table ht)"
    using p table_ok_facts(1) [of "snd r"] table_ok_facts(1) [OF ok] by simp
  have "fst r \<noteq> HT_SUCCESS"
  proof
    assume "fst r = HT_SUCCESS"
    then have "size (contents (table (snd r))) = Suc (size (contents (table ht)))"
      using p by auto
    then show False using contents_size_le [of "table (snd r)"] f l by simp
  qed
  then show ?thesis using p by (auto simp: r_def)
qed

text \<open>For a key that \<open>ht_search\<close> does not report, \<open>ht_insert\<close> succeeds exactly on \<open>insert_ready\<close>.\<close>

lemma ht_insert_new_key:
  assumes iv: "ht_inv ht" and len: "key_len \<noteq> 0"
    and ns: "ht_search ht (Some k) key_len = None"
  shows "fst (ht_insert ht (Some k) key_len v alloc) = HT_SUCCESS \<longleftrightarrow> insert_ready ht alloc"
proof (cases "grow_needed ht \<or> active ht < size_w ht")
  case True
  from ht_insert_result(1) [OF iv True, of "Some k" key_len v alloc]
  show ?thesis using len ns True by (auto simp: insert_ready_def)
next
  case False
  then have ng: "\<not> grow_needed ht" and full: "\<not> active ht < size_w ht" by simp_all
  have "ht_insert ht (Some k) key_len v alloc =
      insert_entry ht (hash_func ht k key_len) (Some k) v"
    using len ns ng by (simp add: ht_insert_def grow_needed_def)
  moreover have "fst (insert_entry ht (hash_func ht k key_len) (Some k) v) = HT_FAILURE"
    using iv _ full by (rule insert_entry_full) simp
  ultimately show ?thesis using ng full by (simp add: insert_ready_def)
qed

text \<open>A slot array that gains an occupied slot has a slot that was empty and is now occupied.\<close>

lemma filter_length_pointwise:
  "length xs = length ys \<Longrightarrow> \<forall>i < length xs. P (xs ! i) \<longrightarrow> Q (ys ! i) \<Longrightarrow>
   length (filter P xs) \<le> length (filter Q ys)"
proof (induction xs ys rule: list_induct2)
  case Nil
  then show ?case by simp
next
  case (Cons x xs y ys)
  have h: "P x \<longrightarrow> Q y" using Cons.prems by (auto dest: spec [of _ 0])
  have "\<forall>i < length xs. P (xs ! i) \<longrightarrow> Q (ys ! i)"
  proof (intro allI impI)
    fix i assume "i < length xs" "P (xs ! i)"
    then show "Q (ys ! i)" using Cons.prems by (auto dest: spec [of _ "Suc i"])
  qed
  then have "length (filter P xs) \<le> length (filter Q ys)" by (rule Cons.IH)
  then show ?case using h by auto
qed

lemma contents_size_filter: "size (contents t) = length (filter occupied t)"
  by (simp add: contents_def flip: mset_filter)

lemma new_occupied_slot:
  assumes l: "length t' = length t" and s: "size (contents t) < size (contents t')"
  shows "\<exists>x < length t. \<not> occupied (t ! x) \<and> occupied (t' ! x)"
proof (rule ccontr)
  assume "\<not> (\<exists>x < length t. \<not> occupied (t ! x) \<and> occupied (t' ! x))"
  then have "\<forall>i < length t'. occupied (t' ! i) \<longrightarrow> occupied (t ! i)" using l by auto
  with l have "length (filter occupied t') \<le> length (filter occupied t)"
    by (rule filter_length_pointwise)
  then show False using s by (simp add: contents_size_filter)
qed

text \<open>
  A NaN load factor passes \<open>validate_load_factors\<close>, the grow check of \<open>ht_insert\<close> never
  succeeds with it, and the table of capacity \<open>2\<close> fills up.
\<close>

lemma ex_created_nan:
  "ht_create ex_hash ex_cmp (Some (ex_config NaN (Finite 0 0))) True True =
     Some (ex_table NaN (Finite 0 0))"
  by (simp add: eval_simps)

lemma ex_nan_insert_0:
  "ht_insert (ex_table NaN (Finite 0 0)) (Some 0) 1 (Some 10) True =
     (HT_SUCCESS, ex_slots [slot 0 0 0 (Some 10), zero_entry] 2 1 NaN (Finite 0 0))"
  by (simp add: eval_simps)

lemma ex_nan_insert_0_1:
  "ht_insert (ex_slots [slot 0 0 0 (Some 10), zero_entry] 2 1 NaN (Finite 0 0))
       (Some 1) 1 (Some 11) True =
     (HT_SUCCESS,
      ex_slots [slot 0 0 0 (Some 10), slot 1 0 1 (Some 11)] 2 2 NaN (Finite 0 0))"
  by (simp add: eval_simps)

lemma ex_nan_insert_full:
  "ht_insert (ex_slots [slot 0 0 0 (Some 10), slot 1 0 1 (Some 11)] 2 2 NaN (Finite 0 0))
       (Some 2) 1 v alloc =
     (HT_FAILURE,
      ex_slots [slot 0 0 0 (Some 10), slot 2 1 2 v] 2 2 NaN (Finite 0 0))"
  by (simp add: eval_simps)

lemma ex_nan_run:
  "run_ops (ex_table NaN (Finite 0 0))
     [Insert (Some 0) 1 (Some 10) True, Insert (Some 1) 1 (Some 11) True] =
     Some (ex_slots [slot 0 0 0 (Some 10), slot 1 0 1 (Some 11)] 2 2 NaN (Finite 0 0))"
  by (simp only: run_ops.simps apply_op.simps ex_nan_insert_0 option.case snd_conv
      ex_nan_insert_0_1 option.map)

lemma ex_insert_0_1_no_memory:
  "ht_insert (ex_slots [slot 0 0 0 (Some 10), zero_entry] 2 1 f32_0_75 f32_0_25)
       (Some 1) 1 v False =
     (HT_MEM_ERROR, ex_slots [slot 0 0 0 (Some 10), zero_entry] 2 1 f32_0_75 f32_0_25)"
  by (simp add: eval_simps)

text \<open>An empty table of capacity \<open>2 ^ 30\<close> with the load factor \<open>2 ^ - 40\<close>.\<close>

definition ex_large :: "(32 word, nat) hashtab" where
  "ex_large =
     \<lparr>table = replicate (2 ^ 30) zero_entry, size_w = 2 ^ 30, active = 0,
      load_factor = Finite 1 (- 40), min_load_factor = Finite 0 0,
      hash_func = ex_hash, cmp_func = ex_cmp, free_key = False, free_val = False\<rparr>"

lemma ex_large_inv: "ht_inv ex_large"
proof -
  have "unat ((2 :: 32 word) ^ 30) = 2 ^ 30" by (rule pow2_word_unat) simp
  then have "ex_large = ex_large\<lparr>table := replicate (unat ((2 :: 32 word) ^ 30)) zero_entry,
      size_w := 2 ^ 30, active := 0\<rparr>"
    by (simp add: ex_large_def)
  moreover have "ht_inv (ex_large\<lparr>table := replicate (unat ((2 :: 32 word) ^ 30)) zero_entry,
      size_w := 2 ^ 30, active := 0\<rparr>)"
    by (rule empty_table_inv) simp
  ultimately show ?thesis by simp
qed

lemma ex_large_insert:
  "ht_insert ex_large (Some 1) 1 v alloc = (HT_FAILURE, ex_large)"
proof -
  have s: "ht_search ex_large (Some 1) 1 = None"
    by (simp add: ht_search_def search_loop.simps ex_large_def probe_func_def ex_hash_def
        zero_entry_def Let_def)
  have g: "fgt (float_of_u32 (active ex_large + 1))
      (fmul (float_of_u32 (size_w ex_large)) (load_factor ex_large))"
    by (simp add: ex_large_def fgt_def float_of_u32_def round32_numeral round32_1 rne_shift_def
        bitlen_numeral bitlen_1)
  have v: "validate_size (size_w ex_large) (push_bit 1 (size_w ex_large)) = HT_FAILURE"
    by (simp add: ex_large_def validate_size_def UINT32_MAX_def)
  show ?thesis
    by (simp only: ht_insert_def option.case s g v one_neq_zero if_False if_True simp_thms
        HTResult.distinct)
qed

text \<open>
  The stated ranges of the two load factors: the maximum in \<open>(0, 1]\<close> and the minimum in
  \<open>[0, max)\<close>. For load factors that are not NaNs, \<open>validate_load_factors\<close> accepts exactly
  these.
\<close>

definition load_factors_in_range :: "float32 \<Rightarrow> float32 \<Rightarrow> bool" where
  "load_factors_in_range lf mlf =
     (case (lf, mlf) of
        (Finite m e, Finite m' e') \<Rightarrow>
          0 < valof lf \<and> valof lf \<le> 1 \<and> 0 \<le> valof mlf \<and> valof mlf < valof lf
      | _ \<Rightarrow> False)"

lemma validate_load_factors_in_range:
  assumes "lf \<noteq> NaN" "mlf \<noteq> NaN"
  shows "validate_load_factors lf mlf = HT_SUCCESS \<longleftrightarrow> load_factors_in_range lf mlf"
proof (cases lf)
  case lf: (Finite m e)
  show ?thesis
  proof (cases mlf)
    case (Finite m' e')
    then show ?thesis
      using validate_load_factors_finite [of m e m' e'] by (simp add: lf load_factors_in_range_def)
  next
    case PInf
    then show ?thesis
      by (simp add: lf load_factors_in_range_def validate_load_factors_def fge_def)
  next
    case MInf
    then show ?thesis
      by (simp add: lf load_factors_in_range_def validate_load_factors_def float_of_int_0)
  next
    case NaN
    then show ?thesis using assms by simp
  qed
next
  case PInf
  then show ?thesis by (simp add: validate_load_factors_inf load_factors_in_range_def)
next
  case MInf
  then show ?thesis by (simp add: validate_load_factors_inf load_factors_in_range_def)
next
  case NaN
  then show ?thesis using assms by simp
qed

lemma in_range_accepted:
  "load_factors_in_range lf mlf \<Longrightarrow> validate_load_factors lf mlf = HT_SUCCESS"
  by (cases lf; cases mlf)
    (simp_all add: load_factors_in_range_def validate_load_factors_finite)

lemma ht_create_result:
  "(ht_create dh dc (Some c) True True :: ('k, 'v) hashtab option) =
     (if validate_load_factors (cfg_load_factor c) (cfg_min_load_factor c) = HT_SUCCESS
      then Some \<lparr>table = replicate 2 zero_entry, size_w = 2, active = 0,
                 load_factor = cfg_load_factor c, min_load_factor = cfg_min_load_factor c,
                 hash_func = (case cfg_hash_func c of Some f \<Rightarrow> f | None \<Rightarrow> dh),
                 cmp_func = (case cfg_cmp_func c of Some f \<Rightarrow> f | None \<Rightarrow> dc),
                 free_key = cfg_free_key c, free_val = cfg_free_val c\<rparr>
      else None)"
  by (simp add: ht_create_def)

lemma ht_create_without_nan:
  assumes "cfg_load_factor c \<noteq> NaN" "cfg_min_load_factor c \<noteq> NaN"
  shows "(ht_create dh dc (Some c) True True :: ('k, 'v) hashtab option) = None \<longleftrightarrow>
      \<not> load_factors_in_range (cfg_load_factor c) (cfg_min_load_factor c)"
  using validate_load_factors_in_range [OF assms] by (simp add: ht_create_result)

text \<open>
  Rounding in the grow check: with the load factor \<open>1.0f\<close> a table of capacity \<open>2 ^ 24\<close> fills
  up, because \<open>2 ^ 24 + 1\<close> converts to the float \<open>2 ^ 24\<close> and the check fails; the next
  insert of a new key runs out of slots. The shrink check rounds alike.
\<close>

lemma float_of_u32_rounds:
  "float_of_u32 16777217 = Finite 8388608 1"
  "float_of_u32 33554431 = Finite 16777216 1"
  by (simp_all add: float_of_u32_def round32_numeral rne_shift_def bitlen_numeral bitlen_1)

lemma full_table_not_grown:
  assumes iv: "ht_inv ht" and s: "size_w ht = 2 ^ 24" and a: "active ht = 2 ^ 24"
    and lf: "load_factor ht = f32_1"
    and len: "key_len \<noteq> 0" and ns: "ht_search ht (Some k) key_len = None"
  shows "\<not> grow_needed ht" and "fst (ht_insert ht (Some k) key_len v alloc) = HT_FAILURE"
proof -
  show ng: "\<not> grow_needed ht"
    by (simp add: grow_needed_def s a lf f32_1_def fgt_def float_of_u32_def round32_numeral
        rne_shift_def bitlen_numeral bitlen_1)
  have full: "\<not> active ht < size_w ht" by (simp add: s a)
  have "ht_insert ht (Some k) key_len v alloc =
      insert_entry ht (hash_func ht k key_len) (Some k) v"
    using len ns ng by (simp add: ht_insert_def grow_needed_def)
  moreover have "fst (insert_entry ht (hash_func ht k key_len) (Some k) v) = HT_FAILURE"
    using iv _ full by (rule insert_entry_full) simp
  ultimately show "fst (ht_insert ht (Some k) key_len v alloc) = HT_FAILURE" by simp
qed

lemma shrink_check_rounds:
  assumes s: "size_w ht = 2 ^ 26" and a: "active ht = 33554432"
    and mlf: "min_load_factor ht = Finite 1 (- 1)"
  shows "remove_table_update ht alloc = ht\<lparr>active := 33554431\<rparr>"
  by (simp add: remove_table_update_def Let_def s a mlf float_of_u32_def round32_numeral
      rne_shift_def bitlen_numeral bitlen_1)

section \<open>Claims\<close>

text \<open>
  C1. Start from a created table whose comparison function returns \<open>0\<close> exactly on equal
  keys, apply any sequence of \<open>ht_insert\<close> and \<open>ht_remove\<close> calls on keys other than \<open>k\<close>, then
  insert \<open>k\<close> with value \<open>v\<close>: when that \<open>ht_insert\<close> returns \<open>HT_SUCCESS\<close>, \<open>ht_search\<close> for \<open>k\<close>
  (same key length) on the resulting table returns \<open>v\<close>.
\<close>

theorem insert_search_roundtrip:
  assumes "ht_create dh dc config alloc_ht alloc_table = Some ht0"
    and "\<forall>a b. cmp_func ht0 a b = 0 \<longleftrightarrow> a = b"
    and "\<forall>x \<in> set xs. op_key x \<noteq> Some k"
    and "run_ops ht0 xs = Some ht"
    and "ht_insert ht (Some k) key_len v alloc = (HT_SUCCESS, ht')"
  shows "ht_search ht' (Some k) key_len = v"
proof -
  from created_run_ops [OF assms(1), of xs] assms(4)
  have iv: "ht_inv ht" and sc: "same_config ht0 ht"
    and keys: "table_keys (table ht) \<subseteq> op_key ` set xs" by auto
  have nk: "Some k \<notin> table_keys (table ht)"
  proof
    assume "Some k \<in> table_keys (table ht)"
    then have "Some k \<in> op_key ` set xs" using keys by (rule subsetD [rotated])
    then obtain x where "x \<in> set xs" "op_key x = Some k" by (auto simp: image_iff)
    then show False using assms(3) by simp
  qed
  let ?h = "hash_func ht k key_len"
  let ?c = "(?h, Some k, v)"
  note p = ht_insert_post [OF iv, of "Some k" key_len v alloc, unfolded assms(5)]
  have iv': "ht_inv ht'" and sc': "same_config ht ht'"
    and sub: "contents (table ht') \<subseteq># add_mset ?c (contents (table ht))"
    and len: "key_len \<noteq> 0" and mem: "?c \<in># contents (table ht')"
    using p by (simp_all add: ht_insert_post_def)
  have cmp: "cmp_func ht' a b = 0 \<longleftrightarrow> a = b" for a b
    using assms(2) sc sc' by (simp add: same_config_def)
  have hf: "hash_func ht' = hash_func ht" using sc' by (simp add: same_config_def)
  have ok': "table_ok ht'" using iv' by (simp add: ht_inv_def)
  from mem obtain x where x: "x < length (table ht')" "occupied (table ht' ! x)"
    "entry_content (table ht' ! x) = ?c" by (rule contents_elem)
  have "matches ht' (hash_func ht' k key_len) k (table ht' ! x)"
    using x cmp by (simp add: matches_def entry_content_def hf)
  from ht_search_present [OF ok' len x(1) this]
  obtain y where y: "y < length (table ht')"
    "matches ht' (hash_func ht' k key_len) k (table ht' ! y)"
    "ht_search ht' (Some k) key_len = val (table ht' ! y)" by auto
  have ky: "key (table ht' ! y) = Some k" using y(2) cmp by (auto simp: matches_def)
  then have "occupied (table ht' ! y)" by (simp add: occupied_def)
  then have "entry_content (table ht' ! y) \<in># contents (table ht')"
    using y(1) by (intro contents_nth)
  then have "entry_content (table ht' ! y) \<in># add_mset ?c (contents (table ht))"
    using sub by (rule mset_subset_eqD [rotated])
  then have "entry_content (table ht' ! y) = ?c \<or> entry_content (table ht' ! y) \<in># contents (table ht)"
    by auto
  then show ?thesis
  proof
    assume "entry_content (table ht' ! y) = ?c"
    then show ?thesis using y(3) by (simp add: entry_content_def)
  next
    assume "entry_content (table ht' ! y) \<in># contents (table ht)"
    then have "Some k \<in> table_keys (table ht)"
      using ky by (force simp: table_keys_def entry_content_def)
    with nk show ?thesis by simp
  qed
qed

theorem insert_search_roundtrip_witness:
  "run_ops (ex_table f32_0_75 f32_0_25) [Insert (Some 1) 1 (Some 11) True] =
     Some (ex_slots [zero_entry, slot 1 0 1 (Some 11)] 2 1 f32_0_75 f32_0_25) \<and>
   ht_insert (ex_slots [zero_entry, slot 1 0 1 (Some 11)] 2 1 f32_0_75 f32_0_25) (Some 0) 1 (Some 10) True =
     (HT_SUCCESS,
      ex_slots [slot 0 0 0 (Some 10), slot 1 0 1 (Some 11), zero_entry, zero_entry] 4 2 f32_0_75 f32_0_25) \<and>
   ht_search
     (ex_slots [slot 0 0 0 (Some 10), slot 1 0 1 (Some 11), zero_entry, zero_entry] 4 2 f32_0_75 f32_0_25)
     (Some 0) 1 = Some 10"
proof -
  have run: "run_ops (ex_table f32_0_75 f32_0_25) [Insert (Some 1) 1 (Some 11) True] =
      Some (ex_slots [zero_entry, slot 1 0 1 (Some 11)] 2 1 f32_0_75 f32_0_25)"
    by (simp only: run_ops.simps apply_op.simps ex_insert_1) simp
  have keys: "\<forall>x \<in> set [Insert (Some 1) 1 (Some 11) True :: (32 word, nat) ht_op].
      op_key x \<noteq> Some 0"
    by simp
  from insert_search_roundtrip [OF ex_created ex_cmp_consistent keys run ex_insert_1_0]
  have "ht_search
     (ex_slots [slot 0 0 0 (Some 10), slot 1 0 1 (Some 11), zero_entry, zero_entry] 4 2 f32_0_75 f32_0_25)
     (Some 0) 1 = Some 10" .
  with run ex_insert_1_0 show ?thesis by blast
qed

text \<open>
  C2. The code returns \<open>HT_SUCCESS\<close> for a key that is already in the table when the stored
  value pointer is NULL: after \<open>ht_insert\<close> of key \<open>3\<close> with a NULL value, slot \<open>1\<close> holds key
  \<open>3\<close>; a second \<open>ht_insert\<close> of key \<open>3\<close> returns \<open>HT_SUCCESS\<close>, doubles the capacity and
  leaves two slots holding key \<open>3\<close>.
\<close>

theorem duplicate_insert_null_value:
  "run_ops (ex_table f32_0_75 f32_0_25) [Insert (Some 3) 1 None True] =
     Some (ex_slots [zero_entry, slot 3 0 3 None] 2 1 f32_0_75 f32_0_25) \<and>
   key (table (ex_slots [zero_entry, slot 3 0 3 None] 2 1 f32_0_75 f32_0_25) ! 1) = Some 3 \<and>
   ht_insert (ex_slots [zero_entry, slot 3 0 3 None] 2 1 f32_0_75 f32_0_25) (Some 3) 1 None True =
     (HT_SUCCESS,
      ex_slots [slot 3 1 3 None, zero_entry, zero_entry, slot 3 0 3 None] 4 2 f32_0_75 f32_0_25)"
  by (simp add: eval_simps)

text \<open>
  C3. With key \<open>3\<close> held twice (the state the two NULL-valued inserts above produce), the
  first \<open>ht_remove\<close> of key \<open>3\<close> returns \<open>HT_SUCCESS\<close> and \<open>ht_search\<close> then returns NULL, but
  the second \<open>ht_remove\<close> of key \<open>3\<close> returns \<open>HT_SUCCESS\<close> again, not \<open>HT_KEY_NOT_FOUND\<close>.
\<close>

theorem remove_twice_duplicate:
  "run_ops (ex_table f32_0_75 f32_0_25) [Insert (Some 3) 1 None True, Insert (Some 3) 1 None True] =
     Some (ex_slots [slot 3 1 3 None, zero_entry, zero_entry, slot 3 0 3 None] 4 2 f32_0_75 f32_0_25) \<and>
   ht_remove (ex_slots [slot 3 1 3 None, zero_entry, zero_entry, slot 3 0 3 None] 4 2 f32_0_75 f32_0_25)
     (Some 3) 1 True =
     Some (HT_SUCCESS,
           ex_slots [stale 3 1, zero_entry, zero_entry, slot 3 0 3 None] 4 1 f32_0_75 f32_0_25) \<and>
   ht_search (ex_slots [stale 3 1, zero_entry, zero_entry, slot 3 0 3 None] 4 1 f32_0_75 f32_0_25)
     (Some 3) 1 = None \<and>
   ht_remove (ex_slots [stale 3 1, zero_entry, zero_entry, slot 3 0 3 None] 4 1 f32_0_75 f32_0_25)
     (Some 3) 1 True =
     Some (HT_SUCCESS, ex_table f32_0_75 f32_0_25)"
proof (intro conjI)
  show "ht_remove (ex_slots [slot 3 1 3 None, zero_entry, zero_entry, slot 3 0 3 None] 4 2 f32_0_75 f32_0_25)
     (Some 3) 1 True =
     Some (HT_SUCCESS,
           ex_slots [stale 3 1, zero_entry, zero_entry, slot 3 0 3 None] 4 1 f32_0_75 f32_0_25)"
    by (simp add: eval_simps) ((subst shift_loop.simps, simp add: eval_simps)+)
  show "ht_remove (ex_slots [stale 3 1, zero_entry, zero_entry, slot 3 0 3 None] 4 1 f32_0_75 f32_0_25)
     (Some 3) 1 True =
     Some (HT_SUCCESS, ex_table f32_0_75 f32_0_25)"
    by (simp add: eval_simps) ((subst shift_loop.simps, simp add: eval_simps)+)
qed (simp_all add: eval_simps)

text \<open>
  C4 as stated fails: a slot at probe step \<open>i\<close> of a key with \<open>psl < i\<close> does not
  make the key absent, because the key may sit at an earlier step. After inserting keys
  \<open>0\<close> and \<open>1\<close>, the slot at step \<open>1\<close> of key \<open>0\<close> is occupied with \<open>psl = 0 < 1\<close>,
  and key \<open>0\<close> is in slot \<open>0\<close> and found by \<open>ht_search\<close>.
\<close>

theorem robin_hood_literal_counterexample:
  "run_ops (ex_table f32_0_75 f32_0_25)
     [Insert (Some 0) 1 (Some 10) True, Insert (Some 1) 1 (Some 11) True] =
     Some (ex_slots [slot 0 0 0 (Some 10), slot 1 0 1 (Some 11), zero_entry, zero_entry]
             4 2 f32_0_75 f32_0_25) \<and>
   occupied (table (ex_slots [slot 0 0 0 (Some 10), slot 1 0 1 (Some 11), zero_entry, zero_entry]
             4 2 f32_0_75 f32_0_25) ! unat (probe_func (ex_hash 0 1) 1 4)) \<and>
   psl (table (ex_slots [slot 0 0 0 (Some 10), slot 1 0 1 (Some 11), zero_entry, zero_entry]
             4 2 f32_0_75 f32_0_25) ! unat (probe_func (ex_hash 0 1) 1 4)) < 1 \<and>
   key (table (ex_slots [slot 0 0 0 (Some 10), slot 1 0 1 (Some 11), zero_entry, zero_entry]
             4 2 f32_0_75 f32_0_25) ! 0) = Some 0 \<and>
   ht_search (ex_slots [slot 0 0 0 (Some 10), slot 1 0 1 (Some 11), zero_entry, zero_entry]
             4 2 f32_0_75 f32_0_25) (Some 0) 1 = Some 10"
proof (intro conjI)
  show "run_ops (ex_table f32_0_75 f32_0_25)
     [Insert (Some 0) 1 (Some 10) True, Insert (Some 1) 1 (Some 11) True] =
     Some (ex_slots [slot 0 0 0 (Some 10), slot 1 0 1 (Some 11), zero_entry, zero_entry]
             4 2 f32_0_75 f32_0_25)"
    by (simp only: run_ops.simps apply_op.simps ex_insert_0 option.case snd_conv ex_insert_0_1)
qed (simp_all add: eval_simps occupied_def)

text \<open>
  C4 (as amended). In a table reached from a created one by any sequence of \<open>ht_insert\<close> and
  \<open>ht_remove\<close> calls: if the slot at probe step \<open>i\<close> of the key \<open>k\<close> is occupied with
  \<open>psl < i\<close>, then every slot holding \<open>k\<close> sits at a probe step of \<open>k\<close> before \<open>i\<close> (the step
  given by its own \<open>psl\<close>), so \<open>k\<close> is absent from step \<open>i\<close> on. And a key that some slot holds
  is never missed: \<open>ht_search\<close> returns the value pointer of a slot holding it, and
  \<open>ht_remove\<close> returns \<open>HT_SUCCESS\<close>.
\<close>

theorem robin_hood_invariant:
  assumes "ht_create dh dc config alloc_ht alloc_table = Some ht0"
    and "run_ops ht0 xs = Some ht"
  shows "(\<forall>k key_len i.
            occupied (table ht ! unat (probe_func (hash_func ht k key_len) i (size_w ht))) \<and>
            psl (table ht ! unat (probe_func (hash_func ht k key_len) i (size_w ht))) < i \<longrightarrow>
            (\<forall>x < length (table ht). matches ht (hash_func ht k key_len) k (table ht ! x) \<longrightarrow>
               psl (table ht ! x) < i \<and>
               x = unat (probe_func (hash_func ht k key_len) (psl (table ht ! x)) (size_w ht)))) \<and>
         (\<forall>k key_len x. key_len \<noteq> 0 \<and> x < length (table ht) \<and>
            matches ht (hash_func ht k key_len) k (table ht ! x) \<longrightarrow>
            (\<exists>y < length (table ht). matches ht (hash_func ht k key_len) k (table ht ! y) \<and>
               ht_search ht (Some k) key_len = val (table ht ! y)) \<and>
            (\<forall>alloc. \<exists>r. ht_remove ht (Some k) key_len alloc = Some r \<and> fst r = HT_SUCCESS))"
proof (intro conjI allI impI)
  from created_run_ops [OF assms(1), of xs] assms(2)
  have iv: "ht_inv ht" by auto
  then have ok: "table_ok ht" by (simp add: ht_inv_def)
  note f = table_ok_facts [OF ok]
  {
    fix k :: 'a and key_len :: nat and i :: "32 word" and x
    let ?hk = "hash_func ht k key_len"
    let ?s = "table ht ! unat (probe_func ?hk i (size_w ht))"
    assume a: "occupied ?s \<and> psl ?s < i"
      and x: "x < length (table ht)" and m: "matches ht ?hk k (table ht ! x)"
    have occ: "occupied (table ht ! x)" and hx: "hash_key (table ht ! x) = ?hk"
      using m by (simp_all add: matches_def occupied_def)
    have sx: "slot_ok (length (table ht)) x (table ht ! x)"
      using f(6) x occ by (simp add: slots_ok_def)
    show "psl (table ht ! x) < i"
    proof (rule ccontr)
      assume "\<not> psl (table ht ! x) < i"
      then have le: "unat i \<le> unat (psl (table ht ! x))" by (simp add: word_less_nat_alt)
      have "unat i \<le> unat (psl ?s)"
        using rh_path [OF f(6) x occ le] by (simp add: f(4) hx)
      then show False using a by (simp add: word_less_nat_alt)
    qed
    show "x = unat (probe_func ?hk (psl (table ht ! x)) (size_w ht))"
      using sx by (simp add: f(4) slot_ok_def hx)
  }
  {
    fix k :: 'a and key_len :: nat and x
    let ?hk = "hash_func ht k key_len"
    assume a: "key_len \<noteq> 0 \<and> x < length (table ht) \<and> matches ht ?hk k (table ht ! x)"
    show "\<exists>y < length (table ht). matches ht ?hk k (table ht ! y) \<and>
        ht_search ht (Some k) key_len = val (table ht ! y)"
      using ht_search_present [OF ok, of key_len x k] a by simp
    fix alloc
    show "\<exists>r. ht_remove ht (Some k) key_len alloc = Some r \<and> fst r = HT_SUCCESS"
      using remove_loop_finds [OF iv, of x ?hk k 0 alloc] a
      by (auto simp: ht_remove_def remove_entry_def)
  }
qed

theorem robin_hood_invariant_witness:
  "psl (table (ex_slots [slot 0 0 0 (Some 10), slot 1 0 1 (Some 11), zero_entry, zero_entry]
          4 2 f32_0_75 f32_0_25) ! 0) < 1 \<and>
   (\<exists>y. ht_search (ex_slots [slot 0 0 0 (Some 10), slot 1 0 1 (Some 11), zero_entry, zero_entry]
          4 2 f32_0_75 f32_0_25) (Some 0) 1 =
        val (table (ex_slots [slot 0 0 0 (Some 10), slot 1 0 1 (Some 11), zero_entry, zero_entry]
          4 2 f32_0_75 f32_0_25) ! y)) \<and>
   (\<exists>r. ht_remove (ex_slots [slot 0 0 0 (Some 10), slot 1 0 1 (Some 11), zero_entry, zero_entry]
          4 2 f32_0_75 f32_0_25) (Some 0) 1 True = Some r \<and> fst r = HT_SUCCESS)"
proof -
  let ?T = "ex_slots [slot 0 0 0 (Some 10), slot 1 0 1 (Some 11), zero_entry, zero_entry] 4 2 f32_0_75 f32_0_25"
  have run: "run_ops (ex_table f32_0_75 f32_0_25)
      [Insert (Some 0) 1 (Some 10) True, Insert (Some 1) 1 (Some 11) True] = Some ?T"
    by (simp only: run_ops.simps apply_op.simps ex_insert_0 option.case snd_conv ex_insert_0_1)
  note r = robin_hood_invariant [OF ex_created run]
  have step: "occupied (table ?T ! unat (probe_func (hash_func ?T 0 1) 1 (size_w ?T))) \<and>
      psl (table ?T ! unat (probe_func (hash_func ?T 0 1) 1 (size_w ?T))) < 1"
    by (simp add: ex_slots_def ex_hash_def slot_def occupied_def probe_func_def)
  have x: "(0 :: nat) < length (table ?T)" by (simp add: ex_slots_def)
  have m: "matches ?T (hash_func ?T 0 1) 0 (table ?T ! 0)"
    by (simp add: ex_slots_def ex_hash_def ex_cmp_def slot_def matches_def)
  from r step x m have a: "psl (table ?T ! 0) < 1" by blast
  have len: "(1 :: nat) \<noteq> 0" by simp
  from r len x m have b: "\<exists>y. ht_search ?T (Some 0) 1 = val (table ?T ! y)" by blast
  from r len x m have c: "\<exists>r. ht_remove ?T (Some 0) 1 True = Some r \<and> fst r = HT_SUCCESS" by blast
  from a b c show ?thesis by blast
qed

text \<open>
  C5. A table reached from a created one by any sequence of \<open>ht_insert\<close> and \<open>ht_remove\<close>
  calls has a capacity \<open>2 ^ e\<close> with \<open>1 \<le> e \<le> 30\<close>; the created table has capacity \<open>2\<close> and
  no active entry. An \<open>ht_insert\<close> on it leaves the capacity alone or doubles it, and doubles
  it only when its single-precision grow check \<open>grow_needed\<close> succeeded, and then
  \<open>capacity * load_factor < active + 1\<close> holds in exact arithmetic (\<open>prod_lt\<close>). An \<open>ht_remove\<close>
  on it returns, and leaves the capacity alone or halves it, and halves it only when the
  capacity is above \<open>2\<close> and the single-precision shrink check on the decremented active
  count succeeded, and then \<open>active - 1 < capacity * min_load_factor\<close> holds in exact
  arithmetic (\<open>lt_prod\<close>).
\<close>

theorem capacity_invariants:
  assumes "ht_create dh dc config alloc_ht alloc_table = Some ht0"
    and "run_ops ht0 xs = Some ht"
  shows "size_w ht0 = 2 \<and> active ht0 = 0 \<and>
    (\<exists>e \<in> {1..30}. size_w ht = 2 ^ e) \<and> 2 \<le> size_w ht \<and>
    (\<forall>k key_len v alloc.
       size_w (snd (ht_insert ht k key_len v alloc)) = size_w ht \<or>
       unat (size_w (snd (ht_insert ht k key_len v alloc))) = 2 * unat (size_w ht) \<and>
       grow_needed ht \<and>
       prod_lt (unat (size_w ht)) (load_factor ht) (unat (active ht) + 1)) \<and>
    (\<forall>k key_len alloc. \<exists>r. ht_remove ht k key_len alloc = Some r \<and>
       (size_w (snd r) = size_w ht \<or>
        unat (size_w (snd r)) = unat (size_w ht) div 2 \<and> 2 < size_w ht \<and>
        0 < active ht \<and>
        flt (float_of_u32 (active ht - 1))
          (fmul (float_of_u32 (size_w ht)) (min_load_factor ht)) \<and>
        lt_prod (unat (active ht) - 1) (unat (size_w ht)) (min_load_factor ht)))"
proof -
  from created_run_ops [OF assms(1), of xs] assms(2)
  have iv: "ht_inv ht" by auto
  then obtain e where e: "e \<in> {1..30}" "size_w ht = 2 ^ e"
    by (auto simp: ht_inv_def table_ok_def sized_def)
  have ok: "table_ok ht" and ac: "unat (active ht) = size (contents (table ht))"
    using iv by (simp_all add: ht_inv_def)
  have "2 \<le> unat (size_w ht)" using table_ok_facts(1,2) [OF ok] by simp
  then have two: "2 \<le> size_w ht" by (simp add: word_le_nat_alt)
  have ins: "size_w (snd (ht_insert ht k key_len v alloc)) = size_w ht \<or>
       unat (size_w (snd (ht_insert ht k key_len v alloc))) = 2 * unat (size_w ht) \<and>
       grow_needed ht \<and>
       prod_lt (unat (size_w ht)) (load_factor ht) (unat (active ht) + 1)"
    for k key_len v alloc
  proof -
    have se: "Suc e < 32" using e(1) by simp
    have d: "unat (push_bit 1 (size_w ht)) = 2 * unat (size_w ht)"
      using pow2_word_unat [OF se] pow2_word_unat [of e] e
      by (simp add: push_bit_eq_mult mult.commute)
    from ht_insert_post [OF iv, of k key_len v alloc]
    have "size_w (snd (ht_insert ht k key_len v alloc)) = size_w ht \<or>
        size_w (snd (ht_insert ht k key_len v alloc)) = push_bit 1 (size_w ht) \<and>
        grow_needed ht"
      by (auto simp: ht_insert_post_def grow_needed_def)
    then show ?thesis using d grow_needed_exact [OF iv] by auto
  qed
  have rem: "\<exists>r. ht_remove ht k key_len alloc = Some r \<and>
       (size_w (snd r) = size_w ht \<or>
        unat (size_w (snd r)) = unat (size_w ht) div 2 \<and> 2 < size_w ht \<and>
        0 < active ht \<and>
        flt (float_of_u32 (active ht - 1))
          (fmul (float_of_u32 (size_w ht)) (min_load_factor ht)) \<and>
        lt_prod (unat (active ht) - 1) (unat (size_w ht)) (min_load_factor ht))"
    for k key_len alloc
  proof -
    from ht_remove_post [OF iv, of k key_len alloc] obtain r where
      r: "ht_remove ht k key_len alloc = Some r"
      and c: "fst r = HT_INVALID_ARG \<and> snd r = ht \<or> remove_post ht r"
      by blast
    show ?thesis
    proof (cases "size_w (snd r) = size_w ht")
      case True
      then show ?thesis using r by blast
    next
      case False
      then have p: "remove_post ht r" using c by auto
      then have h: "size_w (snd r) = size_w ht div 2" "2 < size_w ht"
        and t: "flt (float_of_u32 (active ht - 1))
          (fmul (float_of_u32 (size_w ht)) (min_load_factor ht))"
        using False by (auto simp: remove_post_def)
      have "snd r \<noteq> ht" using False by auto
      then have "Suc (size (contents (table (snd r)))) \<le> size (contents (table ht))"
        using p by (auto simp: remove_post_def)
      then have pos: "0 < unat (active ht)" using ac by simp
      then have a0: "0 < active ht" by (simp add: word_less_nat_alt)
      have "unat (active ht - 1) = unat (active ht) - 1"
        using pos by (simp add: unat_minus_one unat_gt_0)
      with shrink_test_table_exact [OF iv t]
      have "lt_prod (unat (active ht) - 1) (unat (size_w ht)) (min_load_factor ht)" by simp
      moreover have "unat (size_w (snd r)) = unat (size_w ht) div 2"
        using h(1) by (simp add: unat_div)
      ultimately show ?thesis using r h(2) a0 t by blast
    qed
  qed
  show ?thesis
    using ht_create_inv(2,3) [OF assms(1)] e two ins rem by blast
qed

theorem capacity_invariants_witness:
  "run_ops (ex_table f32_0_75 f32_0_25) [Insert (Some 0) 1 (Some 10) True] =
     Some (ex_slots [slot 0 0 0 (Some 10), zero_entry] 2 1 f32_0_75 f32_0_25) \<and>
   2 \<le> size_w (ex_slots [slot 0 0 0 (Some 10), zero_entry] 2 1 f32_0_75 f32_0_25) \<and>
   unat (size_w (snd (ht_insert (ex_slots [slot 0 0 0 (Some 10), zero_entry] 2 1 f32_0_75 f32_0_25)
           (Some 1) 1 (Some 11) True))) =
     2 * unat (size_w (ex_slots [slot 0 0 0 (Some 10), zero_entry] 2 1 f32_0_75 f32_0_25)) \<and>
   grow_needed (ex_slots [slot 0 0 0 (Some 10), zero_entry] 2 1 f32_0_75 f32_0_25) \<and>
   prod_lt (unat (size_w (ex_slots [slot 0 0 0 (Some 10), zero_entry] 2 1 f32_0_75 f32_0_25)))
     (load_factor (ex_slots [slot 0 0 0 (Some 10), zero_entry] 2 1 f32_0_75 f32_0_25))
     (unat (active (ex_slots [slot 0 0 0 (Some 10), zero_entry] 2 1 f32_0_75 f32_0_25)) + 1) \<and>
   run_ops (ex_table f32_0_75 f32_0_25)
     [Insert (Some 0) 1 (Some 10) True, Insert (Some 1) 1 (Some 11) True, Remove (Some 1) 1 True] =
     Some (ex_slots [slot 0 0 0 (Some 10), stale 1 0, zero_entry, zero_entry] 4 1
             f32_0_75 f32_0_25) \<and>
   ht_remove (ex_slots [slot 0 0 0 (Some 10), stale 1 0, zero_entry, zero_entry] 4 1
                f32_0_75 f32_0_25)
     (Some 0) 1 True = Some (HT_SUCCESS, ex_table f32_0_75 f32_0_25) \<and>
   2 < size_w (ex_slots [slot 0 0 0 (Some 10), stale 1 0, zero_entry, zero_entry] 4 1
                 f32_0_75 f32_0_25) \<and>
   lt_prod
     (unat (active (ex_slots [slot 0 0 0 (Some 10), stale 1 0, zero_entry, zero_entry] 4 1
                      f32_0_75 f32_0_25)) - 1)
     (unat (size_w (ex_slots [slot 0 0 0 (Some 10), stale 1 0, zero_entry, zero_entry] 4 1
                      f32_0_75 f32_0_25)))
     (min_load_factor (ex_slots [slot 0 0 0 (Some 10), stale 1 0, zero_entry, zero_entry] 4 1
                         f32_0_75 f32_0_25))"
proof -
  let ?T = "ex_slots [slot 0 0 0 (Some 10), zero_entry] 2 1 f32_0_75 f32_0_25"
  let ?U = "ex_slots [slot 0 0 0 (Some 10), stale 1 0, zero_entry, zero_entry] 4 1
              f32_0_75 f32_0_25"
  have run: "run_ops (ex_table f32_0_75 f32_0_25) [Insert (Some 0) 1 (Some 10) True] = Some ?T"
    by (simp only: run_ops.simps apply_op.simps ex_insert_0) simp
  note c = capacity_invariants [OF ex_created run]
  have two: "2 \<le> size_w ?T" using c by blast
  have "size_w (snd (ht_insert ?T (Some 1) 1 (Some 11) True)) \<noteq> size_w ?T"
    by (simp only: ex_insert_0_1 snd_conv) (simp add: ex_slots_def)
  with c have grow: "unat (size_w (snd (ht_insert ?T (Some 1) 1 (Some 11) True))) =
        2 * unat (size_w ?T) \<and> grow_needed ?T \<and>
      prod_lt (unat (size_w ?T)) (load_factor ?T) (unat (active ?T) + 1)"
    by blast
  have run2: "run_ops (ex_table f32_0_75 f32_0_25)
      [Insert (Some 0) 1 (Some 10) True, Insert (Some 1) 1 (Some 11) True,
       Remove (Some 1) 1 True] = Some ?U"
    by (simp only: run_ops.simps apply_op.simps ex_insert_0 option.case snd_conv ex_insert_0_1
        ex_remove_1 option.map)
  note d = capacity_invariants [OF ex_created run2]
  from d obtain r where r: "ht_remove ?U (Some 0) 1 True = Some r"
    and rr: "size_w (snd r) = size_w ?U \<or>
      unat (size_w (snd r)) = unat (size_w ?U) div 2 \<and> 2 < size_w ?U \<and> 0 < active ?U \<and>
      flt (float_of_u32 (active ?U - 1)) (fmul (float_of_u32 (size_w ?U)) (min_load_factor ?U)) \<and>
      lt_prod (unat (active ?U) - 1) (unat (size_w ?U)) (min_load_factor ?U)"
    by blast
  have "r = (HT_SUCCESS, ex_table f32_0_75 f32_0_25)" using r by (simp only: ex_remove_1_0) simp
  then have "size_w (snd r) \<noteq> size_w ?U" by (simp add: ex_table_def ex_slots_def)
  with rr have shrink: "2 < size_w ?U \<and>
      lt_prod (unat (active ?U) - 1) (unat (size_w ?U)) (min_load_factor ?U)"
    by blast
  from run two grow run2 ex_remove_1_0 shrink show ?thesis by blast
qed

text \<open>
  C6. When the allocation of the new slot array fails, \<open>resize\<close> returns the table it was
  given, unchanged in every field (capacity, active count, slot array), and, the new size
  having passed \<open>validate_size\<close>, the result code is \<open>HT_MEM_ERROR\<close>.
\<close>

theorem resize_alloc_failure:
  "snd (resize ht new_size False) = ht \<and>
   (validate_size (size_w ht) new_size = HT_SUCCESS \<longrightarrow>
      resize ht new_size False = (HT_MEM_ERROR, ht))"
  by (simp add: resize_def Let_def)

theorem resize_alloc_failure_witness:
  "validate_size (size_w (ex_table f32_0_75 f32_0_25)) 4 = HT_SUCCESS \<and>
   resize (ex_table f32_0_75 f32_0_25) 4 False = (HT_MEM_ERROR, ex_table f32_0_75 f32_0_25)"
proof -
  have v: "validate_size (size_w (ex_table f32_0_75 f32_0_25)) 4 = HT_SUCCESS"
    by (simp add: validate_size_def UINT32_MAX_def)
  from resize_alloc_failure [of "ex_table f32_0_75 f32_0_25" 4] v
  have r: "resize (ex_table f32_0_75 f32_0_25) 4 False = (HT_MEM_ERROR, ex_table f32_0_75 f32_0_25)"
    by blast
  from v r show ?thesis by (rule conjI)
qed

text \<open>
  C7. With \<open>load_factor = 1\<close> and \<open>min_load_factor = 0.9f\<close> (a configuration \<open>ht_create\<close>
  accepts), four inserts fill a table of capacity \<open>4\<close>. Removing key \<open>4\<close> leaves three
  entries and triggers the shrink to capacity \<open>2\<close>: \<open>resize\<close> returns \<open>HT_SUCCESS\<close>, the
  rehash drops key \<open>2\<close>, and \<open>ht_search\<close> for key \<open>2\<close>, which returned its value before,
  returns NULL.
\<close>

theorem shrink_loses_entry:
  "ht_create ex_hash ex_cmp (Some (ex_config f32_1 f32_0_9)) True True = Some (ex_table f32_1 f32_0_9) \<and>
   run_ops (ex_table f32_1 f32_0_9)
     [Insert (Some 1) 1 (Some 1) True, Insert (Some 2) 1 (Some 2) True,
      Insert (Some 3) 1 (Some 3) True, Insert (Some 4) 1 (Some 4) True] =
     Some (ex_slots [slot 4 0 4 (Some 4), slot 1 0 1 (Some 1), slot 2 0 2 (Some 2),
                     slot 3 0 3 (Some 3)] 4 4 f32_1 f32_0_9) \<and>
   ht_search (ex_slots [slot 4 0 4 (Some 4), slot 1 0 1 (Some 1), slot 2 0 2 (Some 2),
                     slot 3 0 3 (Some 3)] 4 4 f32_1 f32_0_9) (Some 2) 1 = Some 2 \<and>
   resize (ex_slots [stale 4 0, slot 1 0 1 (Some 1), slot 2 0 2 (Some 2),
                     slot 3 0 3 (Some 3)] 4 3 f32_1 f32_0_9) 2 True =
     (HT_SUCCESS, ex_slots [slot 3 1 3 (Some 3), slot 1 0 1 (Some 1)] 2 2 f32_1 f32_0_9) \<and>
   ht_remove (ex_slots [slot 4 0 4 (Some 4), slot 1 0 1 (Some 1), slot 2 0 2 (Some 2),
                     slot 3 0 3 (Some 3)] 4 4 f32_1 f32_0_9) (Some 4) 1 True =
     Some (HT_SUCCESS, ex_slots [slot 3 1 3 (Some 3), slot 1 0 1 (Some 1)] 2 2 f32_1 f32_0_9) \<and>
   ht_search (ex_slots [slot 3 1 3 (Some 3), slot 1 0 1 (Some 1)] 2 2 f32_1 f32_0_9) (Some 2) 1 = None"
proof (intro conjI)
  show "ht_remove (ex_slots [slot 4 0 4 (Some 4), slot 1 0 1 (Some 1), slot 2 0 2 (Some 2),
                     slot 3 0 3 (Some 3)] 4 4 f32_1 f32_0_9) (Some 4) 1 True =
     Some (HT_SUCCESS, ex_slots [slot 3 1 3 (Some 3), slot 1 0 1 (Some 1)] 2 2 f32_1 f32_0_9)"
    by (simp add: eval_simps) ((subst shift_loop.simps, simp add: eval_simps)+)
qed (simp_all add: eval_simps)

text \<open>
  C8. On a well-formed table whose active count is below the capacity, the placement loop
  of \<open>insert_entry\<close> (at most capacity steps) reaches an empty slot: \<open>insert_entry\<close> returns
  \<open>HT_SUCCESS\<close>, the table it returns is well formed, has the same capacity and one more
  active entry, holds the old entries and the new one, and has an occupied slot where the
  old table had an empty one. So when a slot is free once the grow check is passed
  (\<open>grow_needed\<close>, or the active count is below the capacity), \<open>ht_insert\<close> never takes the
  failure branch of the loop: it returns \<open>HT_FAILURE\<close> only when \<open>validate_size\<close> refuses the
  doubled capacity, and \<open>HT_SUCCESS\<close> whenever the key is new and a needed doubling is allowed
  and allocated, and on success the table holds the old entries and the new one.
\<close>

theorem insert_placement_finds_slot:
  assumes "ht_inv ht"
  shows "(\<forall>hk k v. k \<noteq> None \<and> active ht < size_w ht \<longrightarrow>
            fst (insert_entry ht hk k v) = HT_SUCCESS \<and>
            ht_inv (snd (insert_entry ht hk k v)) \<and>
            size_w (snd (insert_entry ht hk k v)) = size_w ht \<and>
            active (snd (insert_entry ht hk k v)) = active ht + 1 \<and>
            contents (table (snd (insert_entry ht hk k v))) =
              add_mset (hk, k, v) (contents (table ht)) \<and>
            (\<exists>x < length (table ht). \<not> occupied (table ht ! x) \<and>
               occupied (table (snd (insert_entry ht hk k v)) ! x))) \<and>
         (grow_needed ht \<or> active ht < size_w ht \<longrightarrow>
            (\<forall>k key_len v alloc.
               fst (ht_insert ht k key_len v alloc) =
                 (if k = None \<or> key_len = 0 then HT_INVALID_ARG
                  else if ht_search ht k key_len \<noteq> None then HT_KEY_EXISTS
                  else if grow_needed ht \<and>
                          validate_size (size_w ht) (push_bit 1 (size_w ht)) \<noteq> HT_SUCCESS
                    then HT_FAILURE
                  else if grow_needed ht \<and> \<not> alloc then HT_MEM_ERROR
                  else HT_SUCCESS) \<and>
               (fst (ht_insert ht k key_len v alloc) = HT_SUCCESS \<longrightarrow>
                  contents (table (snd (ht_insert ht k key_len v alloc))) =
                    add_mset (hash_func ht (the k) key_len, k, v) (contents (table ht)))))"
proof (intro conjI allI impI)
  fix hk :: "32 word" and k :: "'a option" and v :: "'b option"
  assume a: "k \<noteq> None \<and> active ht < size_w ht"
  then have k: "k \<noteq> None" and lt: "active ht < size_w ht" by simp_all
  have ok: "table_ok ht" using assms by (simp add: ht_inv_def)
  have room: "size (contents (table ht)) < length (table ht)"
    using assms lt by (rule no_grow_room)
  note x = insert_entry_exact [OF assms k room, of hk v]
  note p = insert_entry_post [OF ok k, of hk v, unfolded insert_post_def]
  show "fst (insert_entry ht hk k v) = HT_SUCCESS" by (rule x(1))
  show "ht_inv (snd (insert_entry ht hk k v))" by (rule x(3))
  show "size_w (snd (insert_entry ht hk k v)) = size_w ht" by (rule x(4))
  show "active (snd (insert_entry ht hk k v)) = active ht + 1" using p x(1) by auto
  show c: "contents (table (snd (insert_entry ht hk k v))) =
      add_mset (hk, k, v) (contents (table ht))" by (rule x(2))
  have "table_ok (snd (insert_entry ht hk k v))" using x(3) by (simp add: ht_inv_def)
  then have "length (table (snd (insert_entry ht hk k v))) = length (table ht)"
    using table_ok_facts(1) [of "snd (insert_entry ht hk k v)"] table_ok_facts(1) [OF ok] x(4)
    by simp
  moreover have "size (contents (table ht)) < size (contents (table (snd (insert_entry ht hk k v))))"
    by (simp add: c)
  ultimately show "\<exists>x < length (table ht). \<not> occupied (table ht ! x) \<and>
      occupied (table (snd (insert_entry ht hk k v)) ! x)"
    by (rule new_occupied_slot)
next
  fix k :: "'a option" and key_len v alloc
  assume free: "grow_needed ht \<or> active ht < size_w ht"
  show "fst (ht_insert ht k key_len v alloc) =
      (if k = None \<or> key_len = 0 then HT_INVALID_ARG
       else if ht_search ht k key_len \<noteq> None then HT_KEY_EXISTS
       else if grow_needed ht \<and>
               validate_size (size_w ht) (push_bit 1 (size_w ht)) \<noteq> HT_SUCCESS
         then HT_FAILURE
       else if grow_needed ht \<and> \<not> alloc then HT_MEM_ERROR
       else HT_SUCCESS)"
    by (rule ht_insert_result(1) [OF assms free])
  assume "fst (ht_insert ht k key_len v alloc) = HT_SUCCESS"
  with assms free show "contents (table (snd (ht_insert ht k key_len v alloc))) =
      add_mset (hash_func ht (the k) key_len, k, v) (contents (table ht))"
    by (rule ht_insert_result(3))
qed

theorem insert_placement_finds_slot_witness:
  "active (ex_slots [slot 0 0 0 (Some 10), zero_entry] 2 1 f32_0_75 f32_0_25) <
     size_w (ex_slots [slot 0 0 0 (Some 10), zero_entry] 2 1 f32_0_75 f32_0_25) \<and>
   insert_entry (ex_slots [slot 0 0 0 (Some 10), zero_entry] 2 1 f32_0_75 f32_0_25)
       2 (Some 2) (Some 12) =
     (HT_SUCCESS,
      ex_slots [slot 0 0 0 (Some 10), slot 2 1 2 (Some 12)] 2 2 f32_0_75 f32_0_25) \<and>
   contents (table (snd (insert_entry
       (ex_slots [slot 0 0 0 (Some 10), zero_entry] 2 1 f32_0_75 f32_0_25) 2 (Some 2) (Some 12)))) =
     add_mset (2, Some 2, Some 12)
       (contents (table (ex_slots [slot 0 0 0 (Some 10), zero_entry] 2 1 f32_0_75 f32_0_25))) \<and>
   grow_needed (ex_slots [slot 0 0 0 (Some 10), zero_entry] 2 1 f32_0_75 f32_0_25) \<and>
   fst (ht_insert (ex_slots [slot 0 0 0 (Some 10), zero_entry] 2 1 f32_0_75 f32_0_25)
          (Some 1) 1 (Some 11) True) = HT_SUCCESS \<and>
   fst (ht_insert (ex_slots [slot 0 0 0 (Some 10), zero_entry] 2 1 f32_0_75 f32_0_25)
          (Some 1) 1 (Some 11) False) = HT_MEM_ERROR"
proof -
  let ?T = "ex_slots [slot 0 0 0 (Some 10), zero_entry] 2 1 f32_0_75 f32_0_25"
  have run: "run_ops (ex_table f32_0_75 f32_0_25) [Insert (Some 0) 1 (Some 10) True] = Some ?T"
    by (simp only: run_ops.simps apply_op.simps ex_insert_0) simp
  from created_run_ops [OF ex_created, of "[Insert (Some 0) 1 (Some 10) True]"] run
  have iv: "ht_inv ?T" by auto
  have lt: "active ?T < size_w ?T" by (simp add: ex_slots_def)
  note c = insert_placement_finds_slot [OF iv]
  from c lt have a: "contents (table (snd (insert_entry ?T 2 (Some 2) (Some 12)))) =
      add_mset (2, Some 2, Some 12) (contents (table ?T))" by blast
  have e: "insert_entry ?T 2 (Some 2) (Some 12) =
      (HT_SUCCESS, ex_slots [slot 0 0 0 (Some 10), slot 2 1 2 (Some 12)] 2 2 f32_0_75 f32_0_25)"
    by (simp add: eval_simps)
  have s: "ht_search ?T (Some 1) 1 = None" by (simp add: eval_simps)
  have g: "grow_needed ?T" by (simp add: grow_needed_def eval_simps)
  have v: "validate_size (size_w ?T) (push_bit 1 (size_w ?T)) = HT_SUCCESS"
    by (simp add: eval_simps)
  from c g have r: "fst (ht_insert ?T (Some 1) 1 (Some 11) alloc) =
      (if Some (1 :: 32 word) = None \<or> (1 :: nat) = 0 then HT_INVALID_ARG
       else if ht_search ?T (Some 1) 1 \<noteq> None then HT_KEY_EXISTS
       else if grow_needed ?T \<and>
               validate_size (size_w ?T) (push_bit 1 (size_w ?T)) \<noteq> HT_SUCCESS
         then HT_FAILURE
       else if grow_needed ?T \<and> \<not> alloc then HT_MEM_ERROR
       else HT_SUCCESS)" for alloc
    by blast
  have b: "fst (ht_insert ?T (Some 1) 1 (Some 11) True) = HT_SUCCESS"
    by (simp only: r s g v) simp
  have d: "fst (ht_insert ?T (Some 1) 1 (Some 11) False) = HT_MEM_ERROR"
    by (simp only: r s g v) simp
  from lt e a g b d show ?thesis by blast
qed

text \<open>
  C9. \<open>ht_create\<close> does not fail for every load factor outside the stated ranges. Each
  comparison of \<open>validate_load_factors\<close> with a NaN is false, so the configuration with a NaN
  as \<open>load_factor\<close> and \<open>0\<close> as \<open>min_load_factor\<close>, which is outside the ranges, is accepted
  and \<open>ht_create\<close> returns a table for it. The grow check never succeeds on that table: it
  is full after two inserts, and the third \<open>ht_insert\<close> returns \<open>HT_FAILURE\<close> from the
  exhausted loop of \<open>insert_entry\<close>, which has put the entry of key \<open>2\<close> in the place of
  that of key \<open>1\<close>.
\<close>

theorem ht_create_nan_load_factor:
  "\<not> load_factors_in_range NaN (Finite 0 0) \<and>
   validate_load_factors NaN (Finite 0 0) = HT_SUCCESS \<and>
   ht_create ex_hash ex_cmp (Some (ex_config NaN (Finite 0 0))) True True =
     Some (ex_table NaN (Finite 0 0)) \<and>
   run_ops (ex_table NaN (Finite 0 0))
     [Insert (Some 0) 1 (Some 10) True, Insert (Some 1) 1 (Some 11) True] =
     Some (ex_slots [slot 0 0 0 (Some 10), slot 1 0 1 (Some 11)] 2 2 NaN (Finite 0 0)) \<and>
   ht_insert (ex_slots [slot 0 0 0 (Some 10), slot 1 0 1 (Some 11)] 2 2 NaN (Finite 0 0))
       (Some 2) 1 (Some 12) True =
     (HT_FAILURE,
      ex_slots [slot 0 0 0 (Some 10), slot 2 1 2 (Some 12)] 2 2 NaN (Finite 0 0)) \<and>
   ht_search (ex_slots [slot 0 0 0 (Some 10), slot 2 1 2 (Some 12)] 2 2 NaN (Finite 0 0))
       (Some 1) 1 = None"
proof (intro conjI)
  show "\<not> load_factors_in_range NaN (Finite 0 0)" by (simp add: load_factors_in_range_def)
  show "validate_load_factors NaN (Finite 0 0) = HT_SUCCESS"
    by (simp add: validate_load_factors_NaN)
  show "ht_create ex_hash ex_cmp (Some (ex_config NaN (Finite 0 0))) True True =
      Some (ex_table NaN (Finite 0 0))" by (rule ex_created_nan)
  show "run_ops (ex_table NaN (Finite 0 0))
      [Insert (Some 0) 1 (Some 10) True, Insert (Some 1) 1 (Some 11) True] =
      Some (ex_slots [slot 0 0 0 (Some 10), slot 1 0 1 (Some 11)] 2 2 NaN (Finite 0 0))"
    by (rule ex_nan_run)
  show "ht_insert (ex_slots [slot 0 0 0 (Some 10), slot 1 0 1 (Some 11)] 2 2 NaN (Finite 0 0))
      (Some 2) 1 (Some 12) True =
      (HT_FAILURE,
       ex_slots [slot 0 0 0 (Some 10), slot 2 1 2 (Some 12)] 2 2 NaN (Finite 0 0))"
    by (rule ex_nan_insert_full)
  show "ht_search (ex_slots [slot 0 0 0 (Some 10), slot 2 1 2 (Some 12)] 2 2 NaN (Finite 0 0))
      (Some 1) 1 = None"
    by (simp add: eval_simps)
qed

text \<open>
  C10 as stated fails: an \<open>ht_insert\<close> of a new key with a NULL value does not return
  \<open>HT_SUCCESS\<close> on every table. On the table holding key \<open>0\<close> the insert of key \<open>1\<close> has to
  double the capacity and returns \<open>HT_MEM_ERROR\<close> when the allocation fails; on the empty
  table of capacity \<open>2 ^ 30\<close> \<open>validate_size\<close> refuses the doubled capacity and the insert
  returns \<open>HT_FAILURE\<close>; on the full table with a NaN load factor no slot is free and the
  insert of key \<open>2\<close> returns \<open>HT_FAILURE\<close>. Each of the three tables is well formed and does
  not hold the key.
\<close>

theorem insert_null_value_counterexample:
  "ht_inv (ex_slots [slot 0 0 0 (Some 10), zero_entry] 2 1 f32_0_75 f32_0_25) \<and>
   contents (table (ex_slots [slot 0 0 0 (Some 10), zero_entry] 2 1 f32_0_75 f32_0_25)) =
     {#(0, Some 0, Some 10)#} \<and>
   ht_insert (ex_slots [slot 0 0 0 (Some 10), zero_entry] 2 1 f32_0_75 f32_0_25)
       (Some 1) 1 None False =
     (HT_MEM_ERROR, ex_slots [slot 0 0 0 (Some 10), zero_entry] 2 1 f32_0_75 f32_0_25) \<and>
   ht_inv ex_large \<and> contents (table ex_large) = {#} \<and>
   ht_insert ex_large (Some 1) 1 None True = (HT_FAILURE, ex_large) \<and>
   ht_inv (ex_slots [slot 0 0 0 (Some 10), slot 1 0 1 (Some 11)] 2 2 NaN (Finite 0 0)) \<and>
   contents (table (ex_slots [slot 0 0 0 (Some 10), slot 1 0 1 (Some 11)] 2 2 NaN (Finite 0 0))) =
     {#(0, Some 0, Some 10), (1, Some 1, Some 11)#} \<and>
   fst (ht_insert (ex_slots [slot 0 0 0 (Some 10), slot 1 0 1 (Some 11)] 2 2 NaN (Finite 0 0))
          (Some 2) 1 None True) = HT_FAILURE"
proof (intro conjI)
  let ?T = "ex_slots [slot 0 0 0 (Some 10), zero_entry] 2 1 f32_0_75 f32_0_25"
  let ?U = "ex_slots [slot 0 0 0 (Some 10), slot 1 0 1 (Some 11)] 2 2 NaN (Finite 0 0)"
  have run: "run_ops (ex_table f32_0_75 f32_0_25) [Insert (Some 0) 1 (Some 10) True] = Some ?T"
    by (simp only: run_ops.simps apply_op.simps ex_insert_0) simp
  from created_run_ops [OF ex_created, of "[Insert (Some 0) 1 (Some 10) True]"] run
  show "ht_inv ?T" by auto
  show "contents (table ?T) = {#(0, Some 0, Some 10)#}"
    by (simp add: contents_def occupied_def entry_content_def eval_simps)
  show "ht_insert ?T (Some 1) 1 None False = (HT_MEM_ERROR, ?T)"
    by (rule ex_insert_0_1_no_memory)
  show "ht_inv ex_large" by (rule ex_large_inv)
  show "contents (table ex_large) = {#}" by (simp add: ex_large_def contents_replicate_zero)
  show "ht_insert ex_large (Some 1) 1 None True = (HT_FAILURE, ex_large)"
    by (rule ex_large_insert)
  from created_run_ops [OF ex_created_nan,
      of "[Insert (Some 0) 1 (Some 10) True, Insert (Some 1) 1 (Some 11) True]"] ex_nan_run
  show "ht_inv ?U" by auto
  show "contents (table ?U) = {#(0, Some 0, Some 10), (1, Some 1, Some 11)#}"
    by (simp add: contents_def occupied_def entry_content_def eval_simps)
  show "fst (ht_insert ?U (Some 2) 1 None True) = HT_FAILURE"
    by (simp only: ex_nan_insert_full fst_conv)
qed

text \<open>
  C10, amended. \<open>ht_insert\<close> does not look at the value pointer. On a well-formed table in
  which no slot matches the key \<open>k\<close>, inserting \<open>k\<close> with a NULL value returns \<open>HT_SUCCESS\<close>
  exactly when the table is ready for an insert (\<open>insert_ready\<close>: a doubling asked for by
  the grow check passes \<open>validate_size\<close> and is allocated, and without one a slot is free).
  After that \<open>ht_search\<close> for \<open>k\<close> returns NULL, as it does for an absent key, and a second
  \<open>ht_insert\<close> of \<open>k\<close> with a NULL value again returns \<open>HT_SUCCESS\<close> exactly when the table
  is ready for an insert; the table then holds the entry of \<open>k\<close> twice.
\<close>

theorem insert_null_value:
  assumes "ht_inv ht" and "key_len \<noteq> 0"
    and "\<forall>x < length (table ht). \<not> matches ht (hash_func ht k key_len) k (table ht ! x)"
  shows "\<exists>r1 ht1.
           ht_insert ht (Some k) key_len None alloc = (r1, ht1) \<and>
           (r1 = HT_SUCCESS \<longleftrightarrow> insert_ready ht alloc) \<and>
           (insert_ready ht alloc \<longrightarrow>
              ht_search ht1 (Some k) key_len = None \<and>
              (\<exists>r2 ht2.
                 ht_insert ht1 (Some k) key_len None alloc' = (r2, ht2) \<and>
                 (r2 = HT_SUCCESS \<longleftrightarrow> insert_ready ht1 alloc') \<and>
                 (insert_ready ht1 alloc' \<longrightarrow>
                    contents (table ht2) =
                      add_mset (hash_func ht k key_len, Some k, None)
                        (add_mset (hash_func ht k key_len, Some k, None)
                           (contents (table ht))))))"
proof -
  let ?h = "hash_func ht k key_len"
  let ?c = "(?h, Some k, None :: 'b option)"
  note iv = assms(1) and len = assms(2)
  have ok: "table_ok ht" using iv by (simp add: ht_inv_def)
  then have sz: "sized ht" by (simp add: table_ok_def)
  have s0: "ht_search ht (Some k) key_len = None"
    using sz assms(3) by (rule ht_search_absent)
  define r1 where "r1 = ht_insert ht (Some k) key_len None alloc"
  have i1: "fst r1 = HT_SUCCESS \<longleftrightarrow> insert_ready ht alloc"
    unfolding r1_def using iv len s0 by (rule ht_insert_new_key)
  have rest: "ht_search (snd r1) (Some k) key_len = None \<and>
      (\<exists>r2 ht2.
         ht_insert (snd r1) (Some k) key_len None alloc' = (r2, ht2) \<and>
         (r2 = HT_SUCCESS \<longleftrightarrow> insert_ready (snd r1) alloc') \<and>
         (insert_ready (snd r1) alloc' \<longrightarrow>
            contents (table ht2) = add_mset ?c (add_mset ?c (contents (table ht)))))"
    if rdy: "insert_ready ht alloc"
  proof -
    have free: "grow_needed ht \<or> active ht < size_w ht"
      using rdy by (auto simp: insert_ready_def split: if_splits)
    have f1: "fst r1 = HT_SUCCESS" using i1 rdy by simp
    have c1: "contents (table (snd r1)) = add_mset ?c (contents (table ht))"
      using ht_insert_result(3) [OF iv free, of "Some k" key_len None alloc] f1
      by (simp add: r1_def)
    note p1 = ht_insert_post [OF iv, of "Some k" key_len None alloc, folded r1_def]
    have iv1: "ht_inv (snd r1)" and sc1: "same_config ht (snd r1)"
      using p1 by (auto simp: ht_insert_post_def)
    have hf1: "hash_func (snd r1) = hash_func ht" and cf1: "cmp_func (snd r1) = cmp_func ht"
      using sc1 by (simp_all add: same_config_def)
    have sz1: "sized (snd r1)" using iv1 by (simp add: ht_inv_def table_ok_def)
    have s1: "ht_search (snd r1) (Some k) key_len = None"
    proof -
      from search_loop_result [OF sz1, of ?h k 0]
      have "search_loop (snd r1) ?h k 0 = None \<or>
        (\<exists>x < length (table (snd r1)). matches (snd r1) ?h k (table (snd r1) ! x) \<and>
           search_loop (snd r1) ?h k 0 = val (table (snd r1) ! x))" .
      moreover have "val (table (snd r1) ! x) = None"
        if x: "x < length (table (snd r1))" and m: "matches (snd r1) ?h k (table (snd r1) ! x)"
        for x
      proof -
        have "occupied (table (snd r1) ! x)" using m by (simp add: matches_def occupied_def)
        then have "entry_content (table (snd r1) ! x) \<in># add_mset ?c (contents (table ht))"
          using contents_nth [OF x] by (simp add: c1)
        then have "entry_content (table (snd r1) ! x) = ?c \<or>
            entry_content (table (snd r1) ! x) \<in># contents (table ht)" by auto
        then show ?thesis
        proof
          assume "entry_content (table (snd r1) ! x) = ?c"
          then show ?thesis by (simp add: entry_content_def)
        next
          assume "entry_content (table (snd r1) ! x) \<in># contents (table ht)"
          then obtain y where y: "y < length (table ht)" "occupied (table ht ! y)"
            "entry_content (table ht ! y) = entry_content (table (snd r1) ! x)"
            by (rule contents_elem)
          then have "matches ht ?h k (table ht ! y)"
            using m by (simp add: matches_def entry_content_def cf1)
          then show ?thesis using assms(3) y(1) by simp
        qed
      qed
      ultimately show ?thesis using len by (auto simp: ht_search_def hf1)
    qed
    define r2 where "r2 = ht_insert (snd r1) (Some k) key_len None alloc'"
    have i2: "fst r2 = HT_SUCCESS \<longleftrightarrow> insert_ready (snd r1) alloc'"
      unfolding r2_def using iv1 len s1 by (rule ht_insert_new_key)
    have c2: "contents (table (snd r2)) = add_mset ?c (add_mset ?c (contents (table ht)))"
      if rdy2: "insert_ready (snd r1) alloc'"
    proof -
      have free2: "grow_needed (snd r1) \<or> active (snd r1) < size_w (snd r1)"
        using rdy2 by (auto simp: insert_ready_def split: if_splits)
      have "fst r2 = HT_SUCCESS" using i2 rdy2 by simp
      then show ?thesis
        using ht_insert_result(3) [OF iv1 free2, of "Some k" key_len None alloc']
        by (simp add: r2_def hf1 c1)
    qed
    have "ht_insert (snd r1) (Some k) key_len None alloc' = (fst r2, snd r2)"
      by (simp add: r2_def)
    with i2 c2 s1 show ?thesis by blast
  qed
  have "ht_insert ht (Some k) key_len None alloc = (fst r1, snd r1)" by (simp add: r1_def)
  with i1 rest show ?thesis by blast
qed

theorem insert_null_value_witness:
  "insert_ready (ex_table f32_0_75 f32_0_25) True \<and>
   ht_insert (ex_table f32_0_75 f32_0_25) (Some 3) 1 None True =
     (HT_SUCCESS, ex_slots [zero_entry, slot 3 0 3 None] 2 1 f32_0_75 f32_0_25) \<and>
   ht_search (ex_slots [zero_entry, slot 3 0 3 None] 2 1 f32_0_75 f32_0_25) (Some 3) 1 = None \<and>
   insert_ready (ex_slots [zero_entry, slot 3 0 3 None] 2 1 f32_0_75 f32_0_25) True \<and>
   (\<exists>ht2. ht_insert (ex_slots [zero_entry, slot 3 0 3 None] 2 1 f32_0_75 f32_0_25)
             (Some 3) 1 None True = (HT_SUCCESS, ht2) \<and>
           contents (table ht2) =
             add_mset (hash_func (ex_table f32_0_75 f32_0_25) 3 1, Some 3, None)
               (add_mset (hash_func (ex_table f32_0_75 f32_0_25) 3 1, Some 3, None)
                  (contents (table (ex_table f32_0_75 f32_0_25)))))"
proof -
  let ?T = "ex_table f32_0_75 f32_0_25"
  let ?T1 = "ex_slots [zero_entry, slot 3 0 3 None] 2 1 f32_0_75 f32_0_25"
  have iv: "ht_inv ?T" using ex_created by (rule ht_create_inv(1))
  have fresh: "\<forall>x < length (table ?T). \<not> matches ?T (hash_func ?T 3 1) 3 (table ?T ! x)"
    by (simp add: ex_table_def matches_def zero_entry_def)
  have rdy: "insert_ready ?T True" by (simp add: insert_ready_def grow_needed_def eval_simps)
  have e1: "ht_insert ?T (Some 3) 1 None True = (HT_SUCCESS, ?T1)" by (simp add: eval_simps)
  have rdy1: "insert_ready ?T1 True" by (simp add: insert_ready_def grow_needed_def eval_simps)
  have len: "(1 :: nat) \<noteq> 0" by simp
  from insert_null_value [OF iv len fresh, where alloc = True and alloc' = True]
  obtain r1 ht1 where
    a: "ht_insert ?T (Some 3) 1 None True = (r1, ht1)"
    and b: "insert_ready ?T True \<longrightarrow>
      ht_search ht1 (Some 3) 1 = None \<and>
      (\<exists>r2 ht2. ht_insert ht1 (Some 3) 1 None True = (r2, ht2) \<and>
         (r2 = HT_SUCCESS \<longleftrightarrow> insert_ready ht1 True) \<and>
         (insert_ready ht1 True \<longrightarrow>
            contents (table ht2) =
              add_mset (hash_func ?T 3 1, Some 3, None)
                (add_mset (hash_func ?T 3 1, Some 3, None) (contents (table ?T)))))"
    by auto
  have h: "ht1 = ?T1" using a e1 by simp
  from b rdy rdy1 have s: "ht_search ?T1 (Some 3) 1 = None"
    and c: "\<exists>ht2. ht_insert ?T1 (Some 3) 1 None True = (HT_SUCCESS, ht2) \<and>
      contents (table ht2) =
        add_mset (hash_func ?T 3 1, Some 3, None)
          (add_mset (hash_func ?T 3 1, Some 3, None) (contents (table ?T)))"
    unfolding h by auto
  from rdy e1 s rdy1 c show ?thesis by blast
qed

end
